theory Spec2Isabelle
  imports Complex_Main "HOL-Library.Word"
begin

unbundle bit_operations_syntax

section \<open>Sender: encoder buffer callbacks of the camera side\<close>

subsection \<open>Bytes, buffers and flags\<close>

type_synonym byte = "8 word"

text \<open>
  The 4 bytes that \<^verbatim>\<open>send(sockFD, &length, 4)\<close> puts on the wire for a
  \<^verbatim>\<open>uint32_t\<close>: the object representation on the camera board, an ARM core
  running little-endian (least significant byte first).
\<close>

definition native_u32 :: "32 word \<Rightarrow> byte list" where
  "native_u32 w = [ucast w, ucast (drop_bit 8 w), ucast (drop_bit 16 w), ucast (drop_bit 24 w)]"

text \<open>
  An \<^verbatim>\<open>MMAL_BUFFER_HEADER_T\<close> as the callbacks use it: the flag word and the
  payload bytes \<^verbatim>\<open>data[0 .. length)\<close>. The \<^verbatim>\<open>length\<close> field is the
  32-bit count of those bytes.
\<close>

record mmal_buffer =
  flags :: "32 word"
  data :: "byte list"

definition buf_length :: "mmal_buffer \<Rightarrow> 32 word" where
  "buf_length b = of_nat (length (data b))"

text \<open>
  The bit masks \<^verbatim>\<open>MMAL_BUFFER_HEADER_FLAG_*\<close> come from the MMAL headers, which
  are not among the sources; the callbacks take them as a parameter.
\<close>

record mmal_flag_bits =
  FLAG_FRAME_END :: "32 word"
  FLAG_CONFIG :: "32 word"
  FLAG_CODECSIDEINFO :: "32 word"

text \<open>The values of the masks in the MMAL header, used for concrete runs.\<close>

definition mmal_header_bits :: mmal_flag_bits where
  "mmal_header_bits = \<lparr>FLAG_FRAME_END = 4, FLAG_CONFIG = 32, FLAG_CODECSIDEINFO = 128\<rparr>"

text \<open>\<^verbatim>\<open>enum ANDROID_DATA_TYPES\<close>, sent as one byte.\<close>

datatype ANDROID_DATA_TYPES = CurrentResolution | RegularFrame | MotionInFrame | MotionAlarm

fun dataType_byte :: "ANDROID_DATA_TYPES \<Rightarrow> byte" where
  "dataType_byte CurrentResolution = 0"
| "dataType_byte RegularFrame = 1"
| "dataType_byte MotionInFrame = 2"
| "dataType_byte MotionAlarm = 3"

subsection \<open>Motion detection\<close>

text \<open>
  \<^verbatim>\<open>INLINE_MOTION_VECTOR\<close>: two \<^verbatim>\<open>signed char\<close> and a \<^verbatim>\<open>short\<close>, four
  bytes without padding. The callback casts the buffer's bytes to an array of them.
  Bytes left over after the last group of four still are a cell for the scan when they
  hold both vectors, since \<^verbatim>\<open>DetectMotion\<close> reads \<^verbatim>\<open>x_vector\<close> and
  \<^verbatim>\<open>y_vector\<close> only; the bytes of \<^verbatim>\<open>sad\<close> that the buffer does not hold
  are never read and stand as 0.
\<close>

record INLINE_MOTION_VECTOR =
  x_vector :: "8 word"
  y_vector :: "8 word"
  sad :: "16 word"

fun imv_of_bytes :: "byte list \<Rightarrow> INLINE_MOTION_VECTOR list" where
  "imv_of_bytes (a # b # c # d # rest) =
     \<lparr>x_vector = a, y_vector = b, sad = word_cat d c\<rparr> # imv_of_bytes rest"
| "imv_of_bytes [a, b, c] = [\<lparr>x_vector = a, y_vector = b, sad = word_cat (0 :: byte) c\<rparr>]"
| "imv_of_bytes [a, b] = [\<lparr>x_vector = a, y_vector = b, sad = 0\<rparr>]"
| "imv_of_bytes _ = []"

text \<open>
  \<^verbatim>\<open>(unsigned char)sqrt(vx*vx+vy*vy)\<close>: the argument is an integer of at most
  \<open>2 * 128\<^sup>2\<close>, exactly representable as a double, and the conversion truncates the
  correctly rounded root, which gives the integer square root. It is computed here by
  counting upwards.
\<close>

function isqrt_from :: "nat \<Rightarrow> nat \<Rightarrow> nat" where
  "isqrt_from n k = (if (k + 1) * (k + 1) \<le> n then isqrt_from n (k + 1) else k)"
  by pat_completeness auto
termination
proof (relation "measure (\<lambda>(n, k). n - k)")
  show "wf (measure (\<lambda>(n, k). n - k))" by simp
next
  fix n k :: nat
  assume a: "(k + 1) * (k + 1) \<le> n"
  have "k + 1 \<le> (k + 1) * (k + 1)" by simp
  with a have "k < n" by linarith
  then show "((n, k + 1), (n, k)) \<in> measure (\<lambda>(n, k). n - k)" by simp
qed

declare isqrt_from.simps [simp del]

definition isqrt :: "nat \<Rightarrow> nat" where
  "isqrt n = isqrt_from n 0"

text \<open>
  One cell of the scan: \<^verbatim>\<open>vx\<close> is the negated \<^verbatim>\<open>x_vector\<close> stored back in
  a \<^verbatim>\<open>signed char\<close>, the squares are taken in \<^verbatim>\<open>int\<close>.
\<close>

definition motion_magnitude :: "INLINE_MOTION_VECTOR \<Rightarrow> byte" where
  "motion_magnitude c =
     (let vx = - x_vector c; vy = y_vector c
      in of_nat (isqrt (nat (sint vx * sint vx + sint vy * sint vy))))"

text \<open>
  The body of the inner loop of \<^verbatim>\<open>DetectMotion\<close> at column \<open>x\<close> of row
  \<open>j\<close>. The accumulator is \<^verbatim>\<open>max_vxvy\<close>; it becomes \<open>None\<close> when the cell
  \<^verbatim>\<open>imv[x+(mbx+1)*j]\<close> lies outside the array, where the C program reads memory that
  is not part of the frame.
\<close>

definition DetectMotion_cell ::
  "INLINE_MOTION_VECTOR list \<Rightarrow> nat \<Rightarrow> nat \<Rightarrow> nat \<Rightarrow> byte option \<Rightarrow> byte option" where
  "DetectMotion_cell imv mbx j x acc =
     (case acc of
        None \<Rightarrow> None
      | Some max_vxvy \<Rightarrow>
          (let i = x + (mbx + 1) * j
           in if i < length imv then Some (max max_vxvy (motion_magnitude (imv ! i)))
              else None))"

text \<open>
  \<^verbatim>\<open>DetectMotion\<close>: rows \<open>j < mby\<close>, in each the columns \<open>x < mbx\<close>, starting from
  \<^verbatim>\<open>max_vxvy = 0\<close>; the statements after the first \<^verbatim>\<open>return\<close> are dead code.
  The counts are \<^verbatim>\<open>unsigned short\<close>.
\<close>

definition DetectMotion ::
  "INLINE_MOTION_VECTOR list \<Rightarrow> 16 word \<Rightarrow> 16 word \<Rightarrow> byte option" where
  "DetectMotion imv mbx mby =
     fold (\<lambda>j acc. fold (DetectMotion_cell imv (unat mbx) j) [0..<unat mbx] acc)
       [0..<unat mby] (Some 0)"

text \<open>
  The macroblock counts as \<^verbatim>\<open>main\<close> computes them from the \<^verbatim>\<open>int\<close> width
  and height: \<^verbatim>\<open>mbx = width/16; if (width%16 != 0) mbx++;\<close> with C's truncating
  division, stored in an \<^verbatim>\<open>unsigned short\<close>.
\<close>

definition c_div :: "int \<Rightarrow> int \<Rightarrow> int" where
  "c_div a b = sgn a * sgn b * (\<bar>a\<bar> div \<bar>b\<bar>)"

definition c_rem :: "int \<Rightarrow> int \<Rightarrow> int" where
  "c_rem a b = a - b * c_div a b"

definition macroblocks :: "int \<Rightarrow> 16 word" where
  "macroblocks w =
     (let m = (word_of_int (c_div w 16) :: 16 word)
      in if c_rem w 16 \<noteq> 0 then m + 1 else m)"

subsection \<open>The socket and the process\<close>

text \<open>
  What one call of \<^verbatim>\<open>send\<close> does is decided by the transport. The socket carries
  a script with one entry per future call: \<open>Accepts n\<close> takes at most \<open>n\<close> of
  the offered bytes and returns their count, \<open>SendError\<close> returns \<open>-1\<close>. Once
  the script is used up every call takes all the bytes it is offered.
\<close>

datatype send_outcome = Accepts nat | SendError

text \<open>
  The state of the sending process that the callbacks read and write: the global
  \<^verbatim>\<open>p_buf_partial_begin\<close>, the bytes put on the wire so far, the socket's script,
  the static \<^verbatim>\<open>b1_config_sent\<close>, the global \<^verbatim>\<open>gMotionAlarm\<close>, the
  macroblock counts, the frame counter of \<^verbatim>\<open>handle_frame_end\<close> and the flag
  \<^verbatim>\<open>runTimeShowStat\<close>. Locking, release and recycling of buffer headers and the
  on-screen annotation touch neither the wire nor these fields and are left out.
\<close>

record sender =
  p_buf_partial_begin :: "mmal_buffer option"
  wire :: "byte list"
  sock_script :: "send_outcome list"
  b1_config_sent :: nat
  gMotionAlarm :: int
  mbx :: "16 word"
  mby :: "16 word"
  i64FramesCnt :: nat
  runTimeShowStat :: int

text \<open>How the process ends: \<^verbatim>\<open>exit(code)\<close>, or a read outside the motion-vector array.\<close>

datatype halt = Exit nat | ReadOutOfBounds

definition send :: "sender \<Rightarrow> byte list \<Rightarrow> int \<times> sender" where
  "send s bytes =
     (case sock_script s of
        [] \<Rightarrow> (int (length bytes), s\<lparr>wire := wire s @ bytes\<rparr>)
      | Accepts n # rest \<Rightarrow>
          (int (min n (length bytes)),
           s\<lparr>wire := wire s @ take n bytes, sock_script := rest\<rparr>)
      | SendError # rest \<Rightarrow> (- 1, s\<lparr>sock_script := rest\<rparr>))"

text \<open>
  \<^verbatim>\<open>SendToAndroid(sockFD, buf, len)\<close>: one call of \<^verbatim>\<open>send\<close> for the first
  \<open>len\<close> bytes at \<open>buf\<close>; any result other than \<open>len\<close> is
  \<^verbatim>\<open>exit(__LINE__)\<close>, at line 1259. C compares after converting the result to
  \<^verbatim>\<open>size_t\<close>, where \<open>-1\<close> becomes the largest value of the type; no length
  of a buffer reaches it, so the comparison is the one of the numbers.
\<close>

definition SendToAndroid :: "sender \<Rightarrow> byte list \<Rightarrow> nat \<Rightarrow> halt + sender" where
  "SendToAndroid s buf len =
     (case send s (take len buf) of
        (r, s') \<Rightarrow> if int len \<noteq> r then Inl (Exit 1259) else Inr s')"

definition handle_frame_end :: "sender \<Rightarrow> sender" where
  "handle_frame_end s = s\<lparr>i64FramesCnt := i64FramesCnt s + 1\<rparr>"

text \<open>Sequencing of steps that may end the process.\<close>

definition and_then :: "halt + sender \<Rightarrow> (sender \<Rightarrow> halt + sender) \<Rightarrow> halt + sender" where
  "and_then r f = (case r of Inl h \<Rightarrow> Inl h | Inr s \<Rightarrow> f s)"

subsection \<open>The android callback\<close>

text \<open>
  \<^verbatim>\<open>encoder_buffer_callback_android\<close>. The port's userdata is set before the port
  is enabled, so \<^verbatim>\<open>pData\<close> is not null.
\<close>

definition encoder_buffer_callback_android ::
  "mmal_flag_bits \<Rightarrow> sender \<Rightarrow> mmal_buffer \<Rightarrow> halt + sender" where
  "encoder_buffer_callback_android K s buffer =
     (if buf_length buffer \<noteq> 0 then
        if flags buffer AND FLAG_CONFIG K \<noteq> 0 then
          and_then (SendToAndroid s (native_u32 (buf_length buffer)) 4)
            (\<lambda>s. SendToAndroid s (data buffer) (unat (buf_length buffer)))
        else if flags buffer AND FLAG_CODECSIDEINFO K \<noteq> 0 then Inr s
        else if flags buffer = 0 then
          (case p_buf_partial_begin s of
             Some p \<Rightarrow> Inl (Exit 12)
           | None \<Rightarrow> Inr (s\<lparr>p_buf_partial_begin := Some buffer\<rparr>))
        else if flags buffer AND FLAG_FRAME_END K \<noteq> 0 then
          (case p_buf_partial_begin s of
             Some p \<Rightarrow>
               (let all_length = buf_length p + buf_length buffer in
                and_then (SendToAndroid s (native_u32 all_length) 4) (\<lambda>s.
                and_then (SendToAndroid s (data p) (unat (buf_length p))) (\<lambda>s.
                and_then (SendToAndroid s (data buffer) (unat (buf_length buffer))) (\<lambda>s.
                Inr (handle_frame_end (s\<lparr>p_buf_partial_begin := None\<rparr>))))))
           | None \<Rightarrow>
               and_then (SendToAndroid s (native_u32 (buf_length buffer)) 4) (\<lambda>s.
               and_then (SendToAndroid s (data buffer) (unat (buf_length buffer))) (\<lambda>s.
               Inr (handle_frame_end s))))
        else Inr s
      else Inr s)"

text \<open>\<^verbatim>\<open>encoder_buffer_callback_android_dimon\<close>: the same statements.\<close>

definition encoder_buffer_callback_android_dimon ::
  "mmal_flag_bits \<Rightarrow> sender \<Rightarrow> mmal_buffer \<Rightarrow> halt + sender" where
  "encoder_buffer_callback_android_dimon K s buffer =
     (if buf_length buffer \<noteq> 0 then
        if flags buffer AND FLAG_CONFIG K \<noteq> 0 then
          and_then (SendToAndroid s (native_u32 (buf_length buffer)) 4)
            (\<lambda>s. SendToAndroid s (data buffer) (unat (buf_length buffer)))
        else if flags buffer AND FLAG_CODECSIDEINFO K \<noteq> 0 then Inr s
        else if flags buffer = 0 then
          (case p_buf_partial_begin s of
             Some p \<Rightarrow> Inl (Exit 12)
           | None \<Rightarrow> Inr (s\<lparr>p_buf_partial_begin := Some buffer\<rparr>))
        else if flags buffer AND FLAG_FRAME_END K \<noteq> 0 then
          (case p_buf_partial_begin s of
             Some p \<Rightarrow>
               (let all_length = buf_length p + buf_length buffer in
                and_then (SendToAndroid s (native_u32 all_length) 4) (\<lambda>s.
                and_then (SendToAndroid s (data p) (unat (buf_length p))) (\<lambda>s.
                and_then (SendToAndroid s (data buffer) (unat (buf_length buffer))) (\<lambda>s.
                Inr (handle_frame_end (s\<lparr>p_buf_partial_begin := None\<rparr>))))))
           | None \<Rightarrow>
               and_then (SendToAndroid s (native_u32 (buf_length buffer)) 4) (\<lambda>s.
               and_then (SendToAndroid s (data buffer) (unat (buf_length buffer))) (\<lambda>s.
               Inr (handle_frame_end s))))
        else Inr s
      else Inr s)"

subsection \<open>The android_motion and raw_tcp callbacks\<close>

text \<open>
  \<^verbatim>\<open>encoder_buffer_callback_android_motion\<close>. The static counter
  \<^verbatim>\<open>b1_config_sent\<close> is incremented before the two sends of a configuration buffer.
\<close>

definition encoder_buffer_callback_android_motion ::
  "mmal_flag_bits \<Rightarrow> sender \<Rightarrow> mmal_buffer \<Rightarrow> halt + sender" where
  "encoder_buffer_callback_android_motion K s buffer =
     (if buf_length buffer \<noteq> 0 then
        if b1_config_sent s < 2 \<and> flags buffer AND FLAG_CONFIG K \<noteq> 0 then
          and_then
            (SendToAndroid (s\<lparr>b1_config_sent := b1_config_sent s + 1\<rparr>)
               (native_u32 (buf_length buffer)) 4)
            (\<lambda>s. SendToAndroid s (data buffer) (unat (buf_length buffer)))
        else if flags buffer AND FLAG_CODECSIDEINFO K \<noteq> 0 then
          and_then (SendToAndroid s [dataType_byte MotionInFrame] 1) (\<lambda>s.
            case DetectMotion (imv_of_bytes (data buffer)) (mbx s) (mby s) of
              None \<Rightarrow> Inl ReadOutOfBounds
            | Some mot \<Rightarrow>
                and_then (SendToAndroid s [mot] 1) (\<lambda>s.
                  if gMotionAlarm s \<noteq> 0 \<and> uint mot > gMotionAlarm s
                  then SendToAndroid s [dataType_byte MotionAlarm] 1
                  else Inr s))
        else if flags buffer = 0 then
          (case p_buf_partial_begin s of
             Some p \<Rightarrow> Inl (Exit 12)
           | None \<Rightarrow> Inr (s\<lparr>p_buf_partial_begin := Some buffer\<rparr>))
        else if flags buffer AND FLAG_FRAME_END K \<noteq> 0 then
          (case p_buf_partial_begin s of
             Some p \<Rightarrow>
               (let all_length = buf_length p + buf_length buffer in
                and_then (SendToAndroid s [dataType_byte RegularFrame] 1) (\<lambda>s.
                and_then (SendToAndroid s (native_u32 all_length) 4) (\<lambda>s.
                and_then (SendToAndroid s (data p) (unat (buf_length p))) (\<lambda>s.
                and_then (SendToAndroid s (data buffer) (unat (buf_length buffer))) (\<lambda>s.
                Inr (handle_frame_end (s\<lparr>p_buf_partial_begin := None\<rparr>)))))))
           | None \<Rightarrow>
               and_then (SendToAndroid s [dataType_byte RegularFrame] 1) (\<lambda>s.
               and_then (SendToAndroid s (native_u32 (buf_length buffer)) 4) (\<lambda>s.
               and_then (SendToAndroid s (data buffer) (unat (buf_length buffer))) (\<lambda>s.
               Inr (handle_frame_end s)))))
        else Inr s
      else Inr s)"

text \<open>
  \<^verbatim>\<open>encoder_buffer_callback_raw_tcp\<close>: one \<^verbatim>\<open>send\<close> of the buffer's bytes, with
  \<^verbatim>\<open>exit(__LINE__)\<close> at line 1647 when its result is not the buffer's length.
\<close>

definition encoder_buffer_callback_raw_tcp ::
  "mmal_flag_bits \<Rightarrow> sender \<Rightarrow> mmal_buffer \<Rightarrow> halt + sender" where
  "encoder_buffer_callback_raw_tcp K s buffer =
     (if buf_length buffer \<noteq> 0 then
        if flags buffer AND FLAG_CODECSIDEINFO K \<noteq> 0 then Inr s
        else
          (case send s (take (unat (buf_length buffer)) (data buffer)) of
             (r, s') \<Rightarrow>
               if uint (buf_length buffer) \<noteq> r then Inl (Exit 1647)
               else if flags buffer AND FLAG_FRAME_END K \<noteq> 0 then Inr (handle_frame_end s')
               else Inr s')
      else Inr s)"

text \<open>The encoder calls the callback once per buffer, in order, until the process ends.\<close>

fun run_callbacks ::
  "(sender \<Rightarrow> mmal_buffer \<Rightarrow> halt + sender) \<Rightarrow> sender \<Rightarrow> mmal_buffer list \<Rightarrow> halt + sender" where
  "run_callbacks cb s [] = Inr s"
| "run_callbacks cb s (b # bs) =
     (case cb s b of Inl h \<Rightarrow> Inl h | Inr s' \<Rightarrow> run_callbacks cb s' bs)"

text \<open>
  The process state when \<^verbatim>\<open>main\<close> enables the encoder port for an image of the
  given width and height, on a socket with the given script: the globals have their
  initial values, and \<^verbatim>\<open>default_status\<close> has cleared the state, so that the frame
  counter and \<^verbatim>\<open>runTimeShowStat\<close> are 0.
\<close>

definition initial_sender :: "int \<Rightarrow> int \<Rightarrow> send_outcome list \<Rightarrow> sender" where
  "initial_sender width height script =
     \<lparr>p_buf_partial_begin = None, wire = [], sock_script = script, b1_config_sent = 0,
      gMotionAlarm = 0, mbx = macroblocks width, mby = macroblocks height,
      i64FramesCnt = 0, runTimeShowStat = 0\<rparr>"

section \<open>Receiver: the decoder thread of the viewer\<close>

subsection \<open>Java integers, arrays and the socket's input stream\<close>

text \<open>A Java \<^verbatim>\<open>int\<close>: the result of an arithmetic operation wraps to 32 bits.\<close>

definition jint :: "int \<Rightarrow> int" where
  "jint x = sint (word_of_int x :: 32 word)"

text \<open>
  A \<^verbatim>\<open>byte[]\<close> is a list of fixed length; \<open>blit b off c\<close> is the array
  \<open>b\<close> after the bytes \<open>c\<close> were stored from index \<open>off\<close> on.
\<close>

definition blit :: "byte list \<Rightarrow> nat \<Rightarrow> byte list \<Rightarrow> byte list" where
  "blit b off c = take off b @ c @ drop (off + length c) b"

text \<open>
  The socket's \<^verbatim>\<open>InputStream\<close>. \<open>pending\<close> are the bytes the peer has sent
  and the viewer has not read yet; the peer closes the connection after them. One entry
  of \<open>read_script\<close> per future call of \<^verbatim>\<open>read\<close> says what the transport does
  then: \<open>Delivers n\<close> hands over at most \<open>n + 1\<close> bytes, \<open>ReadFails\<close> makes
  the call throw an \<^verbatim>\<open>IOException\<close>; after the script every call hands over all
  it is asked for. \<open>requested\<close> records the \<^verbatim>\<open>len\<close> argument of every call.
\<close>

datatype read_step = Delivers nat | ReadFails

record in_stream =
  pending :: "byte list"
  read_script :: "read_step list"
  requested :: "int list"

datatype jexn = IOException | IndexOutOfBoundsException

text \<open>
  \<^verbatim>\<open>inputStream.read(b, off, len)\<close> by the contract of
  \<^verbatim>\<open>java.io.InputStream\<close>: an \<^verbatim>\<open>IndexOutOfBoundsException\<close> when \<open>off\<close>
  or \<open>len\<close> is negative or \<open>len\<close> exceeds \<open>b.length - off\<close>; 0 when
  \<open>len\<close> is 0; otherwise at least one byte, or \<open>-1\<close> at the end of the stream.
\<close>

definition stream_read ::
  "in_stream \<Rightarrow> byte list \<Rightarrow> int \<Rightarrow> int \<Rightarrow> (jexn + int) \<times> byte list \<times> in_stream" where
  "stream_read st b off len =
     (let st = st\<lparr>requested := requested st @ [len]\<rparr> in
      if off < 0 \<or> len < 0 \<or> len > int (length b) - off
      then (Inl IndexOutOfBoundsException, b, st)
      else if len = 0 then (Inr 0, b, st)
      else
        (case read_script st of
           ReadFails # rest \<Rightarrow> (Inl IOException, b, st\<lparr>read_script := rest\<rparr>)
         | Delivers n # rest \<Rightarrow>
             if pending st = [] then (Inr (- 1), b, st)
             else
               (let c = take (min (Suc n) (nat len)) (pending st)
                in (Inr (int (length c)), blit b (nat off) c,
                    st\<lparr>pending := drop (length c) (pending st), read_script := rest\<rparr>))
         | [] \<Rightarrow>
             if pending st = [] then (Inr (- 1), b, st)
             else
               (let c = take (nat len) (pending st)
                in (Inr (int (length c)), blit b (nat off) c,
                    st\<lparr>pending := drop (length c) (pending st)\<rparr>))))"

subsection \<open>The two read loops\<close>

lemma jint_le: "- (2 ^ 31) \<le> x \<Longrightarrow> jint x \<le> x"
  by (simp add: jint_def sint_sbintrunc' signed_take_bit_int_less_eq_self_iff)

lemma stream_read_count:
  assumes "stream_read st b off len = (Inr r, b', st')" and "0 < len"
  shows "r = - 1 \<and> pending st = [] \<and> pending st' = [] \<and> 0 \<le> off \<or>
         1 \<le> r \<and> r \<le> len \<and> length (pending st') < length (pending st)"
  using assms
  by (auto simp: stream_read_def Let_def Suc_le_eq split: if_splits list.splits read_step.splits)

lemma read_exact_loop_decreases:
  assumes "0 < iToRead" and "(Inr read, b, st') = stream_read st buffer offset iToRead"
    and "\<not> read < 1"
  shows "((st', b, jint (iToRead - read), jint (offset + read)), (st, buffer, iToRead, offset))
      \<in> measure (\<lambda>(st, b, iToRead, offset). nat iToRead)"
proof -
  from stream_read_count[OF assms(2)[symmetric] assms(1)] assms(3)
  have "1 \<le> read" "read \<le> iToRead" by auto
  then have "jint (iToRead - read) \<le> iToRead - read" by (intro jint_le) simp
  with \<open>1 \<le> read\<close> assms(1) show ?thesis by simp
qed

lemma TcpIpReader_loop_decreases:
  assumes "0 < iToRead" and "(Inr read, b, st') = stream_read st buffer offset iToRead"
  shows "((st', b, jint (iToRead - read), jint (offset + read)), (st, buffer, iToRead, offset))
      \<in> measures [\<lambda>(st, b, iToRead, offset). length (pending st),
                    \<lambda>(st, b, iToRead, offset). nat (offset + 1)]"
proof -
  from stream_read_count[OF assms(2)[symmetric] assms(1)]
  consider "read = - 1" "pending st = []" "pending st' = []" "0 \<le> offset"
    | "length (pending st') < length (pending st)" by blast
  then show ?thesis
  proof cases
    case 1
    have "jint (offset + read) \<le> offset + read" using 1 by (intro jint_le) simp
    then show ?thesis using 1 by simp
  next
    case 2
    then show ?thesis by simp
  qed
qed

text \<open>
  The \<^verbatim>\<open>while (iToRead > 0)\<close> loop of \<^verbatim>\<open>DecoderThread.read_exact\<close>. A result
  of \<^verbatim>\<open>read\<close> below 1 throws, and every exception of the loop, checked or not,
  is caught and gives \<^verbatim>\<open>false\<close>.
\<close>

function read_exact_loop ::
  "in_stream \<Rightarrow> byte list \<Rightarrow> int \<Rightarrow> int \<Rightarrow> bool \<times> byte list \<times> in_stream" where
  "read_exact_loop st buffer iToRead offset =
     (if iToRead > 0 then
        (case stream_read st buffer offset iToRead of
           (Inl ex, b, st') \<Rightarrow> (False, b, st')
         | (Inr read, b, st') \<Rightarrow>
             if read < 1 then (False, b, st')
             else read_exact_loop st' b (jint (iToRead - read)) (jint (offset + read)))
      else (True, buffer, st))"
  by pat_completeness auto
termination
  apply (relation "measure (\<lambda>(st, b, iToRead, offset). nat iToRead)")
   apply simp
  apply clarify
  apply (rule read_exact_loop_decreases; assumption)
  done

declare read_exact_loop.simps [simp del]

text \<open>\<^verbatim>\<open>DecoderThread.read_exact\<close>; the field \<^verbatim>\<open>inputStream\<close> may be null.\<close>

definition read_exact ::
  "in_stream option \<Rightarrow> byte list \<Rightarrow> int \<Rightarrow> bool \<times> byte list \<times> in_stream option" where
  "read_exact inputStream buffer cnt =
     (case inputStream of
        None \<Rightarrow> (False, buffer, None)
      | Some st \<Rightarrow>
          (case read_exact_loop st buffer cnt 0 of (ok, b, st') \<Rightarrow> (ok, b, Some st')))"

text \<open>
  The loop of \<^verbatim>\<open>TcpIpReader.read_exact\<close>: the result of \<^verbatim>\<open>read\<close> is not
  inspected, and only an \<^verbatim>\<open>IOException\<close> is caught; any other exception leaves
  the method.
\<close>

function TcpIpReader_loop ::
  "in_stream \<Rightarrow> byte list \<Rightarrow> int \<Rightarrow> int \<Rightarrow> (jexn + bool) \<times> byte list \<times> in_stream" where
  "TcpIpReader_loop st buffer iToRead offset =
     (if iToRead > 0 then
        (case stream_read st buffer offset iToRead of
           (Inl IOException, b, st') \<Rightarrow> (Inr False, b, st')
         | (Inl IndexOutOfBoundsException, b, st') \<Rightarrow> (Inl IndexOutOfBoundsException, b, st')
         | (Inr read, b, st') \<Rightarrow>
             TcpIpReader_loop st' b (jint (iToRead - read)) (jint (offset + read)))
      else (Inr True, buffer, st))"
  by pat_completeness auto
termination
  apply (relation "measures [\<lambda>(st, b, iToRead, offset). length (pending st),
                             \<lambda>(st, b, iToRead, offset). nat (offset + 1)]")
   apply simp
  apply clarify
  apply (rule TcpIpReader_loop_decreases; assumption)
  done

declare TcpIpReader_loop.simps [simp del]

definition TcpIpReader_read_exact ::
  "in_stream option \<Rightarrow> byte list \<Rightarrow> int \<Rightarrow> (jexn + bool) \<times> byte list \<times> in_stream option" where
  "TcpIpReader_read_exact inputStream buffer cnt =
     (case inputStream of
        None \<Rightarrow> (Inr False, buffer, None)
      | Some st \<Rightarrow>
          (case TcpIpReader_loop st buffer cnt 0 of (r, b, st') \<Rightarrow> (r, b, Some st')))"

subsection \<open>Decoding one length-prefixed unit\<close>

text \<open>
  \<^verbatim>\<open>byteArrayToInt\<close>: four bytes, least significant first, as a Java
  \<^verbatim>\<open>int\<close>. It is only called on the buffer after four bytes were read into it.
\<close>

definition byteArrayToInt :: "byte list \<Rightarrow> int" where
  "byteArrayToInt b =
     sint ((ucast (b ! 0) :: 32 word) OR push_bit 8 (ucast (b ! 1)) OR
           push_bit 16 (ucast (b ! 2)) OR push_bit 24 (ucast (b ! 3)))"

definition TCPIP_BUFFER_SIZE :: int where
  "TCPIP_BUFFER_SIZE = 2000000"

text \<open>
  How one pass of a loop of \<^verbatim>\<open>DecoderThread.run\<close> ends without a unit for the
  codec: \<^verbatim>\<open>read_exact\<close> gave \<^verbatim>\<open>false\<close>; the length guard returned; the codec
  had no input buffer; or \<^verbatim>\<open>inputBuffer.put\<close> threw.
\<close>

datatype decode_fault =
  read_exact_failed | frame_too_long int | no_input_buffer int | put_rejected int

text \<open>
  \<^verbatim>\<open>inputBuffer.put(src, 0, len)\<close> by the contract of \<^verbatim>\<open>java.nio.ByteBuffer\<close>:
  it throws when \<open>len\<close> is negative, exceeds \<open>src.length\<close> or exceeds the room left
  in the codec's buffer; otherwise the codec's buffer receives \<open>src[0 .. len)\<close>.
\<close>

definition ByteBuffer_put :: "nat \<Rightarrow> byte list \<Rightarrow> int \<Rightarrow> byte list option" where
  "ByteBuffer_put capacity src len =
     (if len < 0 \<or> len > int (length src) \<or> len > int capacity then None
      else Some (take (nat len) src))"

text \<open>
  One pass of the loop that reads SPS and PPS. The codec is a collaborator: the result
  of \<^verbatim>\<open>dequeueInputBuffer\<close> and the capacity of its input buffer are parameters.
  The result is the unit queued for the codec, or the fault.
\<close>

definition decode_config ::
  "int \<Rightarrow> nat \<Rightarrow> in_stream option \<Rightarrow> byte list \<Rightarrow>
   (decode_fault + byte list) \<times> byte list \<times> in_stream option" where
  "decode_config inputBufferId capacity inputStream buffer =
     (case read_exact inputStream buffer 4 of
        (False, b, st) \<Rightarrow> (Inl read_exact_failed, b, st)
      | (True, b, st) \<Rightarrow>
          (let sps_or_pps_len = byteArrayToInt b in
           case read_exact st b sps_or_pps_len of
             (False, b, st) \<Rightarrow> (Inl read_exact_failed, b, st)
           | (True, b, st) \<Rightarrow>
               if inputBufferId \<ge> 0 then
                 (case ByteBuffer_put capacity b sps_or_pps_len of
                    None \<Rightarrow> (Inl (put_rejected sps_or_pps_len), b, st)
                  | Some unit \<Rightarrow> (Inr unit, b, st))
               else (Inl (no_input_buffer inputBufferId), b, st)))"

text \<open>One pass of the \<^verbatim>\<open>while (!Thread.interrupted())\<close> loop that reads frames.\<close>

definition decode_frame ::
  "int \<Rightarrow> nat \<Rightarrow> in_stream option \<Rightarrow> byte list \<Rightarrow>
   (decode_fault + byte list) \<times> byte list \<times> in_stream option" where
  "decode_frame inputBufferId capacity inputStream buffer =
     (case read_exact inputStream buffer 4 of
        (False, b, st) \<Rightarrow> (Inl read_exact_failed, b, st)
      | (True, b, st) \<Rightarrow>
          (let iFrameLen = byteArrayToInt b in
           if iFrameLen > TCPIP_BUFFER_SIZE then (Inl (frame_too_long iFrameLen), b, st)
           else if inputBufferId \<ge> 0 then
             (case read_exact st b iFrameLen of
                (False, b, st) \<Rightarrow> (Inl read_exact_failed, b, st)
              | (True, b, st) \<Rightarrow>
                  (case ByteBuffer_put capacity b iFrameLen of
                     None \<Rightarrow> (Inl (put_rejected iFrameLen), b, st)
                   | Some unit \<Rightarrow> (Inr unit, b, st)))
           else (Inl (no_input_buffer inputBufferId), b, st)))"

subsection \<open>The loops of the decoder thread\<close>

text \<open>
  How \<^verbatim>\<open>DecoderThread.run\<close> ends once it reads from the connection. A
  \<^verbatim>\<open>return\<close> statement inside a loop leaves the method at once. An exception thrown
  inside a loop is caught by the \<^verbatim>\<open>catch (Exception ex)\<close> around both loops,
  which posts \<^verbatim>\<open>finishRunner\<close>, the runnable that finishes the viewer's activity;
  the method then closes the input stream and the socket, releases the codec and
  returns. When the frame loop finds the thread interrupted, the method closes and
  releases in the same way. On each path the method returns to the thread that ran it;
  no statement of it ends the process of the viewer.
\<close>

datatype thread_end = returned | exception_caught | interrupted

text \<open>
  A pass ends by an exception when \<^verbatim>\<open>read_exact\<close> gave \<^verbatim>\<open>false\<close> or
  \<^verbatim>\<open>put\<close> threw, and by \<^verbatim>\<open>return\<close> at the length guard and when the codec
  had no input buffer.
\<close>

fun fault_end :: "decode_fault \<Rightarrow> thread_end" where
  "fault_end read_exact_failed = exception_caught"
| "fault_end (put_rejected n) = exception_caught"
| "fault_end (frame_too_long n) = returned"
| "fault_end (no_input_buffer n) = returned"

text \<open>
  The codec and the interruption of the thread are outside the method. The results of
  the successive calls of \<^verbatim>\<open>dequeueInputBuffer\<close> are given as a list, after which
  the codec hands out buffer 0; the results of the successive calls of
  \<^verbatim>\<open>Thread.interrupted()\<close> are given as a list, after which the thread is not
  interrupted.
\<close>

definition dequeueInputBuffer :: "int list \<Rightarrow> int" where
  "dequeueInputBuffer ids = (case ids of [] \<Rightarrow> 0 | i # rest \<Rightarrow> i)"

definition Thread_interrupted :: "bool list \<Rightarrow> bool" where
  "Thread_interrupted interrupts = (case interrupts of [] \<Rightarrow> False | f # rest \<Rightarrow> f)"

text \<open>
  \<^verbatim>\<open>for (int i = 0; i < 2; i++)\<close>, the loop that reads SPS and PPS; the first
  argument counts the passes still to make. The result says how the method ended inside
  the loop, if it did, and gives the units queued for the codec so far.
\<close>

fun config_loop ::
  "nat \<Rightarrow> int list \<Rightarrow> nat \<Rightarrow> in_stream option \<Rightarrow> byte list \<Rightarrow> byte list list \<Rightarrow>
   thread_end option \<times> int list \<times> byte list list \<times> byte list \<times> in_stream option" where
  "config_loop 0 ids capacity inputStream buffer queued =
     (None, ids, queued, buffer, inputStream)"
| "config_loop (Suc n) ids capacity inputStream buffer queued =
     (case decode_config (dequeueInputBuffer ids) capacity inputStream buffer of
        (Inl f, b, st) \<Rightarrow> (Some (fault_end f), ids, queued, b, st)
      | (Inr unit, b, st) \<Rightarrow> config_loop n (tl ids) capacity st b (queued @ [unit]))"

text \<open>The bytes that the peer has sent and the viewer has not read.\<close>

definition unread :: "in_stream option \<Rightarrow> nat" where
  "unread inputStream = (case inputStream of None \<Rightarrow> 0 | Some st \<Rightarrow> length (pending st))"

lemma stream_read_pending:
  "stream_read st b off len = (r, b', st') \<Longrightarrow> length (pending st') \<le> length (pending st)"
  by (auto simp: stream_read_def Let_def split: if_splits list.splits read_step.splits)

lemma read_exact_loop_pending:
  "read_exact_loop st buffer iToRead offset = (ok, b, st') \<Longrightarrow>
     length (pending st') \<le> length (pending st) \<and>
     (ok \<and> 0 < iToRead \<longrightarrow> length (pending st') < length (pending st))"
proof (induction st buffer iToRead offset rule: read_exact_loop.induct)
  case (1 st buffer iToRead offset)
  show ?case
  proof (cases "0 < iToRead")
    case False
    then show ?thesis using "1.prems" by (simp add: read_exact_loop.simps)
  next
    case True
    obtain r b1 st1 where rd: "stream_read st buffer offset iToRead = (r, b1, st1)"
      by (cases "stream_read st buffer offset iToRead") auto
    note le = stream_read_pending[OF rd]
    show ?thesis
    proof (cases r)
      case (Inl ex)
      then show ?thesis using "1.prems" True rd le
        by (simp add: read_exact_loop.simps)
    next
      case (Inr n)
      show ?thesis
      proof (cases "n < 1")
        case True
        then show ?thesis using "1.prems" \<open>0 < iToRead\<close> rd le Inr
          by (simp add: read_exact_loop.simps)
      next
        case False
        from stream_read_count[OF rd[unfolded Inr] \<open>0 < iToRead\<close>] False
        have lt: "length (pending st1) < length (pending st)" by auto
        have rec: "read_exact_loop st1 b1 (jint (iToRead - n)) (jint (offset + n)) = (ok, b, st')"
          using "1.prems" \<open>0 < iToRead\<close> rd Inr False
          by (simp add: read_exact_loop.simps)
        from "1.IH"[OF \<open>0 < iToRead\<close> rd[symmetric] Inr refl False rec] lt
        show ?thesis by simp
      qed
    qed
  qed
qed

lemma read_exact_unread:
  assumes "read_exact inputStream buffer cnt = (ok, b, st)"
  shows "unread st \<le> unread inputStream \<and> (ok \<and> 0 < cnt \<longrightarrow> unread st < unread inputStream)"
proof (cases inputStream)
  case None
  then show ?thesis using assms by (auto simp: read_exact_def unread_def)
next
  case (Some s)
  obtain ok' b' s' where l: "read_exact_loop s buffer cnt 0 = (ok', b', s')"
    by (cases "read_exact_loop s buffer cnt 0") auto
  with assms Some have "ok = ok'" "st = Some s'" by (auto simp: read_exact_def)
  with read_exact_loop_pending[OF l] Some show ?thesis by (simp add: unread_def)
qed

lemma frame_loop_decreases:
  assumes "(Inr unit, b, st) = decode_frame inputBufferId capacity inputStream buffer"
  shows "unread st < unread inputStream"
proof -
  obtain ok1 b1 s1 where r1: "read_exact inputStream buffer 4 = (ok1, b1, s1)"
    by (cases "read_exact inputStream buffer 4") auto
  obtain ok2 b2 s2 where r2: "read_exact s1 b1 (byteArrayToInt b1) = (ok2, b2, s2)"
    by (cases "read_exact s1 b1 (byteArrayToInt b1)") auto
  from assms[symmetric] r1 r2 have "ok1" "st = s2"
    by (auto simp: decode_frame_def Let_def split: if_splits bool.splits option.splits)
  with read_exact_unread[OF r1] read_exact_unread[OF r2] show ?thesis by simp
qed

text \<open>
  \<^verbatim>\<open>while (!Thread.interrupted())\<close>, the loop that reads frames. A pass that queues
  a unit has read the four bytes of its length, so the loop ends on every stream.
\<close>

function frame_loop ::
  "bool list \<Rightarrow> int list \<Rightarrow> nat \<Rightarrow> in_stream option \<Rightarrow> byte list \<Rightarrow> byte list list \<Rightarrow>
   thread_end \<times> byte list list \<times> in_stream option" where
  "frame_loop interrupts ids capacity inputStream buffer queued =
     (if Thread_interrupted interrupts then (interrupted, queued, inputStream)
      else
        (case decode_frame (dequeueInputBuffer ids) capacity inputStream buffer of
           (Inl f, b, st) \<Rightarrow> (fault_end f, queued, st)
         | (Inr unit, b, st) \<Rightarrow>
             frame_loop (tl interrupts) (tl ids) capacity st b (queued @ [unit])))"
  by pat_completeness auto
termination
  apply (relation "measure (\<lambda>(interrupts, ids, capacity, inputStream, buffer, queued).
      unread inputStream)")
   apply simp
  apply clarify
  apply (simp add: frame_loop_decreases)
  done

declare frame_loop.simps [simp del]

text \<open>
  \<^verbatim>\<open>DecoderThread.run\<close> from \<^verbatim>\<open>buffer = new byte[TCPIP_BUFFER_SIZE]\<close> on: the
  two passes for SPS and PPS, then the frame loop. The result is how the method ended,
  the units queued for the codec in order, and the stream as the last read left it.
\<close>

definition DecoderThread_run ::
  "bool list \<Rightarrow> int list \<Rightarrow> nat \<Rightarrow> in_stream option \<Rightarrow>
   thread_end \<times> byte list list \<times> in_stream option" where
  "DecoderThread_run interrupts ids capacity inputStream =
     (case config_loop 2 ids capacity inputStream (replicate (nat TCPIP_BUFFER_SIZE) 0) [] of
        (Some e, ids, queued, b, st) \<Rightarrow> (e, queued, st)
      | (None, ids, queued, b, st) \<Rightarrow> frame_loop interrupts ids capacity st b queued)"

section \<open>Control channel of the camera side\<close>

text \<open>
  A line as \<^verbatim>\<open>getline\<close> returns it is a C string: what follows a NUL character is
  not seen by \<^verbatim>\<open>strncmp\<close> and \<^verbatim>\<open>sscanf\<close>.
\<close>

definition c_str :: "string \<Rightarrow> string" where
  "c_str s = takeWhile (\<lambda>c. c \<noteq> CHR 0x00) s"

text \<open>\<^verbatim>\<open>!strncmp(key, line, n)\<close>.\<close>

definition strncmp_eq :: "string \<Rightarrow> string \<Rightarrow> nat \<Rightarrow> bool" where
  "strncmp_eq key line n = (take n (c_str key) = take n (c_str line))"

definition isspace :: "char \<Rightarrow> bool" where
  "isspace c = (c \<in> {CHR '' '', CHR 0x09, CHR 0x0A, CHR 0x0B, CHR 0x0C, CHR 0x0D})"

definition isdigit :: "char \<Rightarrow> bool" where
  "isdigit c = (48 \<le> (of_char c :: nat) \<and> (of_char c :: nat) \<le> 57)"

fun scan_digits :: "string \<Rightarrow> nat \<Rightarrow> nat" where
  "scan_digits [] acc = acc"
| "scan_digits (c # cs) acc =
     (if isdigit c then scan_digits cs (10 * acc + (of_char c - 48)) else acc)"

definition INT_MAX :: int where
  "INT_MAX = 2147483647"

definition INT_MIN :: int where
  "INT_MIN = - 2147483648"

text \<open>
  The conversion \<^verbatim>\<open>%d\<close> of \<^verbatim>\<open>sscanf\<close> on the input that follows the matched
  key: white space is skipped, then an optional sign and at least one decimal digit are
  read; \<open>None\<close> when no digit is there. The value stored in the \<^verbatim>\<open>int\<close>: C
  leaves it open when the number does not fit; it is clamped here as
  \<^verbatim>\<open>strtol\<close> does where \<^verbatim>\<open>long\<close> has 32 bits.
\<close>

definition scan_d :: "string \<Rightarrow> int option" where
  "scan_d s =
     (let s1 = dropWhile isspace s;
          neg = (s1 \<noteq> [] \<and> hd s1 = CHR ''-'');
          s2 = (if s1 \<noteq> [] \<and> (hd s1 = CHR ''-'' \<or> hd s1 = CHR ''+'') then tl s1 else s1)
      in if s2 \<noteq> [] \<and> isdigit (hd s2)
         then (let v = int (scan_digits s2 0)
               in Some (max INT_MIN (min INT_MAX (if neg then - v else v))))
         else None)"

text \<open>The calls the command loop makes on the camera.\<close>

datatype camera_call =
  raspicamcontrol_set_ISO int
| raspicamcontrol_set_shutter_speed int
| my_annotate string
| SwitchMotionVectorsOnFly int
| my_raspicamcontrol_zoom_in_zoom_out char

text \<open>
  The body of the \<^verbatim>\<open>while\<close> loop of \<^verbatim>\<open>receive_commands\<close> for one line: the
  calls it makes and the process state after it. \<^verbatim>\<open>sscanf(line, "key=%d\n", &x)\<close>
  is 1 exactly when the conversion stores a value, the key having been matched by
  \<^verbatim>\<open>strncmp\<close> before.
\<close>

definition command_line :: "sender \<Rightarrow> string \<Rightarrow> camera_call list \<times> sender" where
  "command_line s line0 =
     (let line = c_str line0 in
      if strncmp_eq ''iso='' line 4 then
        (case scan_d (drop 4 line) of
           Some iPar \<Rightarrow> ([raspicamcontrol_set_ISO iPar], s)
         | None \<Rightarrow> ([], s))
      else if strncmp_eq ''ss='' line 3 then
        (case scan_d (drop 3 line) of
           Some iPar \<Rightarrow> ([raspicamcontrol_set_shutter_speed iPar], s)
         | None \<Rightarrow> ([], s))
      else if strncmp_eq ''stat='' line 5 then
        (let s = (case scan_d (drop 5 line) of
                    Some v \<Rightarrow> s\<lparr>runTimeShowStat := v\<rparr>
                  | None \<Rightarrow> s)
         in if runTimeShowStat s = 0 then ([my_annotate ''''], s) else ([], s))
      else if strncmp_eq ''motion='' line 7 then
        (if gMotionAlarm s = 0 then
           (case scan_d (drop 7 line) of
              Some iPar \<Rightarrow> ([SwitchMotionVectorsOnFly iPar], s)
            | None \<Rightarrow> ([], s))
         else ([], s))
      else if strncmp_eq ''move='' line 5 then
        ([my_raspicamcontrol_zoom_in_zoom_out (if 5 < length line then line ! 5 else CHR 0x00)],
         s)
      else if strncmp_eq ''mot_alarm='' line 10 then
        (case scan_d (drop 10 line) of
           Some v \<Rightarrow>
             ([SwitchMotionVectorsOnFly (if v = 0 then 0 else 1)], s\<lparr>gMotionAlarm := v\<rparr>)
         | None \<Rightarrow> ([], s))
      else ([], s))"

text \<open>
  \<^verbatim>\<open>getline\<close> on the characters still to come from the socket: the next line with
  its newline, or what is left when the input ends without one; \<open>None\<close> at the end.
\<close>

fun getline :: "string \<Rightarrow> (string \<times> string) option" where
  "getline [] = None"
| "getline (c # cs) =
     (if c = CHR 0x0A then Some ([c], cs)
      else (case getline cs of
              None \<Rightarrow> Some ([c], [])
            | Some (l, rest) \<Rightarrow> Some (c # l, rest)))"

lemma getline_shorter: "getline input = Some (l, rest) \<Longrightarrow> length rest < length input"
  by (induction input arbitrary: l rest) (auto split: if_splits option.splits)

text \<open>
  \<^verbatim>\<open>receive_commands\<close>: line after line until the input ends, collecting the calls
  on the camera in order.
\<close>

function receive_commands :: "sender \<Rightarrow> string \<Rightarrow> camera_call list \<times> sender" where
  "receive_commands s input =
     (case getline input of
        None \<Rightarrow> ([], s)
      | Some (line, rest) \<Rightarrow>
          (case command_line s line of
             (calls, s') \<Rightarrow>
               (case receive_commands s' rest of
                  (calls', s'') \<Rightarrow> (calls @ calls', s''))))"
  by pat_completeness auto
termination
  apply (relation "measure (\<lambda>(s, input). length input)")
   apply simp
  apply (auto dest: getline_shorter)
  done

declare receive_commands.simps [simp del]

text \<open>
  The decimal numeral of an integer, as a writer of the line \<^verbatim>\<open>iso=<integer>\<close>
  produces it: a minus sign for a negative number, then the digits without leading
  zeros.
\<close>

function dec_nat :: "nat \<Rightarrow> string" where
  "dec_nat n =
     (if n < 10 then [char_of (48 + n)] else dec_nat (n div 10) @ [char_of (48 + n mod 10)])"
  by pat_completeness auto
termination
  by (relation "measure id") simp_all

declare dec_nat.simps [simp del]

definition decimal :: "int \<Rightarrow> string" where
  "decimal i = (if i < 0 then CHR ''-'' # dec_nat (nat (- i)) else dec_nat (nat i))"

text \<open>The keys that \<^verbatim>\<open>receive_commands\<close> knows.\<close>

definition known_keys :: "string list" where
  "known_keys = [''iso='', ''ss='', ''stat='', ''motion='', ''move='', ''mot_alarm='']"

section \<open>Properties of the sender\<close>

lemma SendToAndroid_open:
  "sock_script s = [] \<Longrightarrow> len \<le> length buf \<Longrightarrow>
   SendToAndroid s buf len = Inr (s\<lparr>wire := wire s @ take len buf\<rparr>)"
  by (simp add: SendToAndroid_def send_def)

lemma unat_buf_length_le: "unat (buf_length b) \<le> length (data b)"
  by (simp add: buf_length_def unat_of_nat)

lemma SendToAndroid_data:
  "sock_script s = [] \<Longrightarrow>
   SendToAndroid s (data b) (unat (buf_length b)) =
     Inr (s\<lparr>wire := wire s @ take (unat (buf_length b)) (data b)\<rparr>)"
  by (simp add: SendToAndroid_open unat_buf_length_le)

lemma SendToAndroid_u32:
  "sock_script s = [] \<Longrightarrow>
   SendToAndroid s (native_u32 w) 4 = Inr (s\<lparr>wire := wire s @ native_u32 w\<rparr>)"
  by (simp add: SendToAndroid_open native_u32_def)

lemma SendToAndroid_tag:
  "sock_script s = [] \<Longrightarrow> SendToAndroid s [x] 1 = Inr (s\<lparr>wire := wire s @ [x]\<rparr>)"
  by (simp add: SendToAndroid_open)

lemma SendToAndroid_Inr:
  assumes "SendToAndroid s buf len = Inr s'"
  shows "s' = s\<lparr>wire := wire s @ take len buf, sock_script := tl (sock_script s)\<rparr>"
  using assms
  by (auto simp: SendToAndroid_def send_def min_def split: list.splits send_outcome.splits if_splits)

lemma and_then_Inr [simp]: "and_then (Inr s) f = f s"
  by (simp add: and_then_def)

lemma and_then_Inl [simp]: "and_then (Inl h) f = Inl h"
  by (simp add: and_then_def)

lemma and_then_eq_Inr:
  "and_then r f = Inr s' \<longleftrightarrow> (\<exists>s1. r = Inr s1 \<and> f s1 = Inr s')"
  by (cases r) simp_all

lemma unat_u32: "n < 2 ^ 32 \<Longrightarrow> unat (of_nat n :: 32 word) = n"
  by (simp add: unat_of_nat)

lemma take_unat_buf_length:
  "length (data b) < 2 ^ 32 \<Longrightarrow> take (unat (buf_length b)) (data b) = data b"
  by (simp add: buf_length_def unat_of_nat)

lemma buf_length_0_iff:
  "length (data b) < 2 ^ 32 \<Longrightarrow> buf_length b = 0 \<longleftrightarrow> data b = []"
  by (auto simp: buf_length_def word_of_nat_eq_0_iff dest: dvd_imp_le)

lemma dimon_eq_android:
  "encoder_buffer_callback_android_dimon = encoder_buffer_callback_android"
  by (intro ext)
    (simp only: encoder_buffer_callback_android_dimon_def encoder_buffer_callback_android_def)

subsection \<open>Reassembly of a frame that arrives in two buffers\<close>

lemma android_partial_begin:
  assumes "p_buf_partial_begin s = None" "flags b = 0" "buf_length b \<noteq> 0"
  shows "encoder_buffer_callback_android K s b = Inr (s\<lparr>p_buf_partial_begin := Some b\<rparr>)"
  using assms by (simp add: encoder_buffer_callback_android_def)

lemma android_partial_end:
  assumes "sock_script s = []" "p_buf_partial_begin s = Some p"
    and "flags b AND FLAG_FRAME_END K \<noteq> 0" "flags b AND FLAG_CONFIG K = 0"
    and "flags b AND FLAG_CODECSIDEINFO K = 0" "buf_length b \<noteq> 0"
  shows "encoder_buffer_callback_android K s b =
     Inr (handle_frame_end (s\<lparr>wire := wire s @ native_u32 (buf_length p + buf_length b)
          @ take (unat (buf_length p)) (data p) @ take (unat (buf_length b)) (data b),
        p_buf_partial_begin := None\<rparr>))"
proof -
  have "flags b \<noteq> 0" using assms(3) by auto
  then show ?thesis using assms
    by (simp add: encoder_buffer_callback_android_def SendToAndroid_data SendToAndroid_u32
        handle_frame_end_def)
qed

lemma android_complete:
  assumes "sock_script s = []" "p_buf_partial_begin s = None"
    and "flags b AND FLAG_FRAME_END K \<noteq> 0" "flags b AND FLAG_CONFIG K = 0"
    and "flags b AND FLAG_CODECSIDEINFO K = 0" "buf_length b \<noteq> 0"
  shows "encoder_buffer_callback_android K s b =
     Inr (handle_frame_end (s\<lparr>wire := wire s @ native_u32 (buf_length b)
          @ take (unat (buf_length b)) (data b)\<rparr>))"
proof -
  have "flags b \<noteq> 0" using assms(3) by auto
  then show ?thesis using assms
    by (simp add: encoder_buffer_callback_android_def SendToAndroid_data SendToAndroid_u32
        handle_frame_end_def)
qed

lemma reassembly_android:
  assumes "sock_script s = []" and "p_buf_partial_begin s = None"
    and "flags b1 = 0"
    and "flags b2 AND FLAG_FRAME_END K \<noteq> 0"
    and "flags b2 AND FLAG_CONFIG K = 0"
    and "flags b2 AND FLAG_CODECSIDEINFO K = 0"
    and "data b2 \<noteq> []"
    and "length (data b1) + length (data b2) < 2 ^ 32"
  shows "\<exists>s1 s2. encoder_buffer_callback_android K s b1 = Inr s1 \<and> wire s1 = wire s \<and>
      encoder_buffer_callback_android K s1 b2 = Inr s2 \<and>
      wire s2 = wire s @ native_u32 (of_nat (length (data b1) + length (data b2)))
                  @ data b1 @ data b2 \<and>
      p_buf_partial_begin s2 = None"
proof -
  have l1: "length (data b1) < 2 ^ 32" and l2: "length (data b2) < 2 ^ 32"
    using assms(8) by simp_all
  have n2: "buf_length b2 \<noteq> 0" using buf_length_0_iff[OF l2] assms(7) by simp
  have sum: "buf_length b1 + buf_length b2 = of_nat (length (data b1) + length (data b2))"
    by (simp add: buf_length_def)
  show ?thesis
  proof (cases "data b1 = []")
    case True
    then have "buf_length b1 = 0" by (simp add: buf_length_def)
    then have 1: "encoder_buffer_callback_android K s b1 = Inr s"
      by (simp add: encoder_buffer_callback_android_def)
    have 2: "encoder_buffer_callback_android K s b2 =
        Inr (handle_frame_end (s\<lparr>wire := wire s @ native_u32 (buf_length b2) @ data b2\<rparr>))"
      using android_complete[OF assms(1,2,4,5,6) n2] by (simp only: take_unat_buf_length[OF l2])
    show ?thesis using 1 2 True assms(2)
      by (simp add: handle_frame_end_def buf_length_def)
  next
    case False
    then have n1: "buf_length b1 \<noteq> 0" using buf_length_0_iff[OF l1] by simp
    let ?s1 = "s\<lparr>p_buf_partial_begin := Some b1\<rparr>"
    have 1: "encoder_buffer_callback_android K s b1 = Inr ?s1"
      by (rule android_partial_begin[OF assms(2,3) n1])
    have 2: "encoder_buffer_callback_android K ?s1 b2 =
        Inr (handle_frame_end (?s1\<lparr>wire := wire ?s1 @ native_u32 (buf_length b1 + buf_length b2)
          @ data b1 @ data b2, p_buf_partial_begin := None\<rparr>))"
      using android_partial_end[of ?s1 b1 b2 K] assms(1,4,5,6) n2
      by (simp add: take_unat_buf_length[OF l1] take_unat_buf_length[OF l2])
    show ?thesis using 1 2 sum
      by (simp add: handle_frame_end_def)
  qed
qed

lemma split4:
  fixes n :: nat
  shows "n mod 256 + 256 * (n div 256 mod 256) + 65536 * (n div 65536 mod 256) +
     16777216 * (n div 16777216) = n"
proof -
  have a: "n = 256 * (n div 256) + n mod 256" by simp
  have b: "n div 256 = 256 * (n div 65536) + n div 256 mod 256"
    using div_mult_mod_eq[of "n div 256" 256] by (simp add: div_mult2_eq[symmetric])
  have c: "n div 65536 = 256 * (n div 16777216) + n div 65536 mod 256"
    using div_mult_mod_eq[of "n div 65536" 256] by (simp add: div_mult2_eq[symmetric])
  from a b c show ?thesis by linarith
qed

lemma native_u32_value:
  "unat (native_u32 w ! 0) + 256 * unat (native_u32 w ! 1) + 65536 * unat (native_u32 w ! 2) +
     16777216 * unat (native_u32 w ! 3) = unat w"
proof -
  have lt: "unat w < 2 ^ 32" using unsigned_less[of w, where 'a = nat] by simp
  have "unat w div 16777216 < 256" using lt by simp
  then have m: "unat w div 16777216 mod 256 = unat w div 16777216" by simp
  show ?thesis
    using split4[of "unat w"] m
    by (simp add: native_u32_def unsigned_ucast_eq unat_drop_bit_eq drop_bit_eq_div
        take_bit_eq_mod unat_div)
qed

text \<open>
  Claim C2, as the code has it. The callbacks take a buffer as the begin of a partial
  frame when its flag word is 0. On a socket that takes every send in full and with no
  partial frame outstanding, let a buffer with no flag set at all, carrying the bytes
  \<open>A\<close>, be followed by a buffer that carries the bytes \<open>B\<close> (at least one) and
  is flagged as the end of a frame of H.264 data, that is with FRAME_END and neither
  CONFIG nor CODECSIDEINFO, where \<open>|A| + |B|\<close> fits the 32-bit length field. Then
  the first callback puts nothing on the wire, and the second puts there four bytes
  whose value, least significant byte first, is \<open>|A| + |B|\<close>, followed by \<open>A\<close>
  and then \<open>B\<close>, and leaves no partial frame outstanding. This holds for the android
  and the android_dimon callback.
\<close>

theorem reassembly_emits_one_frame:
  assumes "cb = encoder_buffer_callback_android K \<or> cb = encoder_buffer_callback_android_dimon K"
    and "sock_script s = []" and "p_buf_partial_begin s = None"
    and "flags b1 = 0" and "data b1 = A"
    and "flags b2 AND FLAG_FRAME_END K \<noteq> 0"
    and "flags b2 AND FLAG_CONFIG K = 0"
    and "flags b2 AND FLAG_CODECSIDEINFO K = 0"
    and "data b2 = B" and "B \<noteq> []"
    and "length A + length B < 2 ^ 32"
  shows "\<exists>s1 s2 L. cb s b1 = Inr s1 \<and> wire s1 = wire s \<and>
      cb s1 b2 = Inr s2 \<and> wire s2 = wire s @ native_u32 L @ A @ B \<and>
      unat L = length A + length B \<and>
      unat (native_u32 L ! 0) + 256 * unat (native_u32 L ! 1) +
        65536 * unat (native_u32 L ! 2) + 16777216 * unat (native_u32 L ! 3)
        = length A + length B \<and>
      p_buf_partial_begin s2 = None"
proof -
  have cb: "cb = encoder_buffer_callback_android K"
    using assms(1) by (simp add: dimon_eq_android)
  have u: "unat (of_nat (length A + length B) :: 32 word) = length A + length B"
    using assms(11) by (rule unat_u32)
  from reassembly_android[of s b1 b2 K] assms
  obtain s1 s2 where "encoder_buffer_callback_android K s b1 = Inr s1" "wire s1 = wire s"
    "encoder_buffer_callback_android K s1 b2 = Inr s2"
    "wire s2 = wire s @ native_u32 (of_nat (length A + length B)) @ A @ B"
    "p_buf_partial_begin s2 = None"
    by auto
  with cb u native_u32_value[of "of_nat (length A + length B)"] show ?thesis
    by (intro exI[of _ s1] exI[of _ s2] exI[of _ "of_nat (length A + length B)"])
      (simp only: simp_thms)
qed

theorem reassembly_emits_one_frame_witness:
  "\<exists>s1 s2 L.
     encoder_buffer_callback_android mmal_header_bits (initial_sender 1920 1080 [])
       \<lparr>flags = 0, data = [1, 2]\<rparr> = Inr s1 \<and>
     wire s1 = [] \<and>
     encoder_buffer_callback_android mmal_header_bits s1 \<lparr>flags = 4, data = [3]\<rparr> = Inr s2 \<and>
     wire s2 = native_u32 L @ [1, 2] @ [3] \<and> unat L = 3"
proof -
  have "\<exists>s1 s2 L.
     encoder_buffer_callback_android mmal_header_bits (initial_sender 1920 1080 [])
       \<lparr>flags = 0, data = [1, 2]\<rparr> = Inr s1 \<and>
     wire s1 = wire (initial_sender 1920 1080 []) \<and>
     encoder_buffer_callback_android mmal_header_bits s1 \<lparr>flags = 4, data = [3]\<rparr> = Inr s2 \<and>
     wire s2 = wire (initial_sender 1920 1080 []) @ native_u32 L @ [1, 2] @ [3] \<and>
     unat L = length [1, 2 :: byte] + length [3 :: byte] \<and>
     unat (native_u32 L ! 0) + 256 * unat (native_u32 L ! 1) +
        65536 * unat (native_u32 L ! 2) + 16777216 * unat (native_u32 L ! 3)
        = length [1, 2 :: byte] + length [3 :: byte] \<and>
     p_buf_partial_begin s2 = None"
    by (rule reassembly_emits_one_frame [where K = mmal_header_bits])
      (simp_all add: initial_sender_def mmal_header_bits_def)
  then obtain s1 s2 L where f:
    "encoder_buffer_callback_android mmal_header_bits (initial_sender 1920 1080 [])
       \<lparr>flags = 0, data = [1, 2]\<rparr> = Inr s1"
    "wire s1 = wire (initial_sender 1920 1080 [])"
    "encoder_buffer_callback_android mmal_header_bits s1 \<lparr>flags = 4, data = [3]\<rparr> = Inr s2"
    "wire s2 = wire (initial_sender 1920 1080 []) @ native_u32 L @ [1, 2] @ [3]"
    "unat L = length [1, 2 :: byte] + length [3 :: byte]"
    by blast
  show ?thesis
    using f by (intro exI[of _ s1] exI[of _ s2] exI[of _ L]) (simp add: initial_sender_def)
qed

text \<open>
  A first buffer whose flag word is not 0 and has no FRAME_END: with the flag word 8
  (in the MMAL header KEYFRAME, which marks no boundary) or 2 (FRAME_START) it is not
  the begin of a partial frame for the callbacks. Its bytes 1, 2 are not kept, and the
  buffer with FRAME_END that follows goes out alone, as a frame of length 1.
\<close>

theorem flagged_first_buffer_is_dropped:
  "run_callbacks (encoder_buffer_callback_android mmal_header_bits) (initial_sender 1920 1080 [])
      [\<lparr>flags = 8, data = [1, 2]\<rparr>, \<lparr>flags = 4, data = [3]\<rparr>]
     = Inr ((initial_sender 1920 1080 [])\<lparr>wire := [1, 0, 0, 0, 3], i64FramesCnt := 1\<rparr>) \<and>
   run_callbacks (encoder_buffer_callback_android_dimon mmal_header_bits)
      (initial_sender 1920 1080 [])
      [\<lparr>flags = 2, data = [1, 2]\<rparr>, \<lparr>flags = 4, data = [3]\<rparr>]
     = Inr ((initial_sender 1920 1080 [])\<lparr>wire := [1, 0, 0, 0, 3], i64FramesCnt := 1\<rparr>)"
  by (simp add: encoder_buffer_callback_android_def encoder_buffer_callback_android_dimon_def
      initial_sender_def mmal_header_bits_def buf_length_def SendToAndroid_def send_def
      and_then_def handle_frame_end_def native_u32_def)

subsection \<open>A second begin of a partial frame\<close>

lemma android_keeps_partial:
  assumes "p_buf_partial_begin s = Some p"
    and "encoder_buffer_callback_android K s b = Inr s'"
  shows "p_buf_partial_begin s' = Some p \<or>
     (p_buf_partial_begin s' = None \<and>
      wire s' = wire s @ native_u32 (buf_length p + buf_length b)
        @ take (unat (buf_length p)) (data p) @ take (unat (buf_length b)) (data b))"
  using assms
  by (auto simp: encoder_buffer_callback_android_def and_then_eq_Inr handle_frame_end_def Let_def
      native_u32_def
      dest!: SendToAndroid_Inr split: if_splits)

lemma motion_keeps_partial:
  assumes "p_buf_partial_begin s = Some p"
    and "encoder_buffer_callback_android_motion K s b = Inr s'"
  shows "p_buf_partial_begin s' = Some p \<or>
     (p_buf_partial_begin s' = None \<and>
      wire s' = wire s @ dataType_byte RegularFrame # native_u32 (buf_length p + buf_length b)
        @ take (unat (buf_length p)) (data p) @ take (unat (buf_length b)) (data b))"
  using assms
  by (auto simp: encoder_buffer_callback_android_motion_def and_then_eq_Inr handle_frame_end_def
      Let_def native_u32_def
      dest!: SendToAndroid_Inr split: if_splits option.splits)

text \<open>
  Claim C3, as the code has it. The callbacks take a buffer as the begin of a partial
  frame when its flag word is 0. While a partial frame \<open>p\<close> is outstanding, a buffer
  that carries data and has no flag set at all makes each of the three android
  callbacks end the process with \<^verbatim>\<open>exit(12)\<close>, whatever buffers would follow, so
  that the callback goes on with neither of the two buffers. And whenever a callback
  returns instead, for any buffer, the outstanding partial frame is either still \<open>p\<close>
  or it has been put on the wire in full together with the buffer that ended it: it is
  never replaced by another buffer, so there is never more than the one.
\<close>

theorem second_partial_begin_is_fatal:
  assumes "p_buf_partial_begin s = Some p"
  shows "(flags b = 0 \<and> buf_length b \<noteq> 0 \<longrightarrow>
       encoder_buffer_callback_android K s b = Inl (Exit 12) \<and>
       encoder_buffer_callback_android_dimon K s b = Inl (Exit 12) \<and>
       encoder_buffer_callback_android_motion K s b = Inl (Exit 12) \<and>
       run_callbacks (encoder_buffer_callback_android K) s (b # rest) = Inl (Exit 12) \<and>
       run_callbacks (encoder_buffer_callback_android_motion K) s (b # rest) = Inl (Exit 12)) \<and>
     (\<forall>b' s'. encoder_buffer_callback_android K s b' = Inr s' \<longrightarrow>
        p_buf_partial_begin s' = Some p \<or>
        (p_buf_partial_begin s' = None \<and>
         wire s' = wire s @ native_u32 (buf_length p + buf_length b')
           @ take (unat (buf_length p)) (data p) @ take (unat (buf_length b')) (data b'))) \<and>
     (\<forall>b' s'. encoder_buffer_callback_android_dimon K s b' = Inr s' \<longrightarrow>
        p_buf_partial_begin s' = Some p \<or>
        (p_buf_partial_begin s' = None \<and>
         wire s' = wire s @ native_u32 (buf_length p + buf_length b')
           @ take (unat (buf_length p)) (data p) @ take (unat (buf_length b')) (data b'))) \<and>
     (\<forall>b' s'. encoder_buffer_callback_android_motion K s b' = Inr s' \<longrightarrow>
        p_buf_partial_begin s' = Some p \<or>
        (p_buf_partial_begin s' = None \<and>
         wire s' = wire s @ dataType_byte RegularFrame
           # native_u32 (buf_length p + buf_length b')
           @ take (unat (buf_length p)) (data p) @ take (unat (buf_length b')) (data b')))"
proof (intro conjI impI allI)
  assume b: "flags b = 0 \<and> buf_length b \<noteq> 0"
  show a: "encoder_buffer_callback_android K s b = Inl (Exit 12)"
    using assms b by (simp add: encoder_buffer_callback_android_def)
  then show "encoder_buffer_callback_android_dimon K s b = Inl (Exit 12)"
    by (simp add: dimon_eq_android)
  show m: "encoder_buffer_callback_android_motion K s b = Inl (Exit 12)"
    using assms b by (simp add: encoder_buffer_callback_android_motion_def)
  show "run_callbacks (encoder_buffer_callback_android K) s (b # rest) = Inl (Exit 12)"
    using a by simp
  show "run_callbacks (encoder_buffer_callback_android_motion K) s (b # rest) = Inl (Exit 12)"
    using m by simp
next
  fix b' s'
  assume "encoder_buffer_callback_android K s b' = Inr s'"
  then show "p_buf_partial_begin s' = Some p \<or>
        (p_buf_partial_begin s' = None \<and>
         wire s' = wire s @ native_u32 (buf_length p + buf_length b')
           @ take (unat (buf_length p)) (data p) @ take (unat (buf_length b')) (data b'))"
    by (rule android_keeps_partial[OF assms])
next
  fix b' s'
  assume "encoder_buffer_callback_android_dimon K s b' = Inr s'"
  then have "encoder_buffer_callback_android K s b' = Inr s'"
    by (simp add: dimon_eq_android)
  then show "p_buf_partial_begin s' = Some p \<or>
        (p_buf_partial_begin s' = None \<and>
         wire s' = wire s @ native_u32 (buf_length p + buf_length b')
           @ take (unat (buf_length p)) (data p) @ take (unat (buf_length b')) (data b'))"
    by (rule android_keeps_partial[OF assms])
next
  fix b' s'
  assume "encoder_buffer_callback_android_motion K s b' = Inr s'"
  then show "p_buf_partial_begin s' = Some p \<or>
        (p_buf_partial_begin s' = None \<and>
         wire s' = wire s @ dataType_byte RegularFrame
           # native_u32 (buf_length p + buf_length b')
           @ take (unat (buf_length p)) (data p) @ take (unat (buf_length b')) (data b'))"
    by (rule motion_keeps_partial[OF assms])
qed

theorem second_partial_begin_is_fatal_witness:
  "run_callbacks (encoder_buffer_callback_android mmal_header_bits)
     (initial_sender 1920 1080 [])
     [\<lparr>flags = 0, data = [1]\<rparr>, \<lparr>flags = 0, data = [2]\<rparr>, \<lparr>flags = 4, data = [3]\<rparr>]
   = Inl (Exit 12) \<and>
   (\<exists>s'. encoder_buffer_callback_android_motion mmal_header_bits
       ((initial_sender 1920 1080 [])\<lparr>p_buf_partial_begin := Some \<lparr>flags = 0, data = [1]\<rparr>\<rparr>)
       \<lparr>flags = 4, data = [3]\<rparr> = Inr s' \<and>
     p_buf_partial_begin s' = None \<and> wire s' = [1, 2, 0, 0, 0, 1, 3])"
proof -
  let ?s1 = "(initial_sender 1920 1080 [])\<lparr>p_buf_partial_begin := Some \<lparr>flags = 0, data = [1]\<rparr>\<rparr>"
  let ?s2 = "(initial_sender 1920 1080 [])\<lparr>wire := [1, 2, 0, 0, 0, 1, 3], i64FramesCnt := 1\<rparr>"
  have 1: "encoder_buffer_callback_android mmal_header_bits (initial_sender 1920 1080 [])
      \<lparr>flags = 0, data = [1]\<rparr> = Inr ?s1"
    by (simp add: encoder_buffer_callback_android_def initial_sender_def buf_length_def
        mmal_header_bits_def)
  have p: "p_buf_partial_begin ?s1 = Some \<lparr>flags = 0, data = [1]\<rparr>" by simp
  have "flags \<lparr>flags = 0, data = [2::byte]\<rparr> = 0 \<and> buf_length \<lparr>flags = 0, data = [2]\<rparr> \<noteq> 0"
    by (simp add: buf_length_def)
  with second_partial_begin_is_fatal [OF p, of "\<lparr>flags = 0, data = [2]\<rparr>" mmal_header_bits
      "[\<lparr>flags = 4, data = [3]\<rparr>]"]
  have "run_callbacks (encoder_buffer_callback_android mmal_header_bits) ?s1
      [\<lparr>flags = 0, data = [2]\<rparr>, \<lparr>flags = 4, data = [3]\<rparr>] = Inl (Exit 12)"
    by blast
  with 1 have a: "run_callbacks (encoder_buffer_callback_android mmal_header_bits)
     (initial_sender 1920 1080 [])
     [\<lparr>flags = 0, data = [1]\<rparr>, \<lparr>flags = 0, data = [2]\<rparr>, \<lparr>flags = 4, data = [3]\<rparr>]
   = Inl (Exit 12)" by simp
  have e: "encoder_buffer_callback_android_motion mmal_header_bits ?s1
      \<lparr>flags = 4, data = [3]\<rparr> = Inr ?s2"
    by (simp add: encoder_buffer_callback_android_motion_def
      initial_sender_def mmal_header_bits_def buf_length_def SendToAndroid_def send_def
      and_then_def handle_frame_end_def native_u32_def)
  have n: "p_buf_partial_begin ?s2 \<noteq> Some \<lparr>flags = 0, data = [1]\<rparr>"
    by (simp add: initial_sender_def)
  from second_partial_begin_is_fatal [OF p, of _ mmal_header_bits, THEN conjunct2, THEN conjunct2,
      THEN conjunct2, rule_format, OF e] n
  have "p_buf_partial_begin ?s2 = None \<and>
     wire ?s2 = wire ?s1 @ dataType_byte RegularFrame
        # native_u32 (buf_length \<lparr>flags = 0, data = [1]\<rparr> + buf_length \<lparr>flags = 4, data = [3]\<rparr>)
        @ take (unat (buf_length \<lparr>flags = 0, data = [1 :: byte]\<rparr>)) (data \<lparr>flags = 0 :: 32 word, data = [1 :: byte]\<rparr>)
        @ take (unat (buf_length \<lparr>flags = 4, data = [3 :: byte]\<rparr>)) (data \<lparr>flags = 4 :: 32 word, data = [3 :: byte]\<rparr>)"
    by blast
  then have "p_buf_partial_begin ?s2 = None \<and> wire ?s2 = [1, 2, 0, 0, 0, 1, 3]"
    by simp
  with e a show ?thesis by blast
qed

text \<open>
  A second begin whose flag word is not 0 and has no FRAME_END: while the buffer with
  the byte 1 is outstanding, a buffer with the flag word 8 (in the MMAL header
  KEYFRAME, which marks no boundary) and the byte 2 does not end the process. The
  callback returns, and the frame that the buffer with FRAME_END completes is 1, 3: the
  byte 2 never reaches the wire.
\<close>

theorem flagged_second_begin_is_not_fatal:
  "run_callbacks (encoder_buffer_callback_android mmal_header_bits) (initial_sender 1920 1080 [])
      [\<lparr>flags = 0, data = [1]\<rparr>, \<lparr>flags = 8, data = [2]\<rparr>, \<lparr>flags = 4, data = [3]\<rparr>]
     = Inr ((initial_sender 1920 1080 [])\<lparr>wire := [2, 0, 0, 0, 1, 3], i64FramesCnt := 1\<rparr>) \<and>
   run_callbacks (encoder_buffer_callback_android_motion mmal_header_bits)
      (initial_sender 1920 1080 [])
      [\<lparr>flags = 0, data = [1]\<rparr>, \<lparr>flags = 8, data = [2]\<rparr>, \<lparr>flags = 4, data = [3]\<rparr>]
     = Inr ((initial_sender 1920 1080 [])\<lparr>wire := [1, 2, 0, 0, 0, 1, 3], i64FramesCnt := 1\<rparr>)"
  by (simp add: encoder_buffer_callback_android_def encoder_buffer_callback_android_motion_def
      initial_sender_def mmal_header_bits_def buf_length_def SendToAndroid_def send_def
      and_then_def handle_frame_end_def native_u32_def)

section \<open>Properties of the receiver\<close>

lemma u32_of_native:
  "(ucast (ucast w :: byte) :: 32 word) OR push_bit 8 (ucast (ucast (drop_bit 8 w) :: byte)) OR
     push_bit 16 (ucast (ucast (drop_bit 16 w) :: byte)) OR
     push_bit 24 (ucast (ucast (drop_bit 24 w) :: byte)) = (w :: 32 word)"
  apply (rule bit_eqI)
  apply (auto simp: bit_simps)
  subgoal for n by (cases "24 \<le> n") simp_all
  done

lemma byteArrayToInt_native: "byteArrayToInt (native_u32 w @ rest) = sint w"
  by (simp add: byteArrayToInt_def native_u32_def u32_of_native)

lemma jint_id: "- (2 ^ 31) \<le> x \<Longrightarrow> x < 2 ^ 31 \<Longrightarrow> jint x = x"
  by (simp add: jint_def sint_sbintrunc' signed_take_bit_int_eq_self)

lemma length_blit: "off + length c \<le> length b \<Longrightarrow> length (blit b off c) = length b"
  by (simp add: blit_def)

lemma blit_blit:
  "off + length c1 + length c2 \<le> length b \<Longrightarrow>
   blit (blit b off c1) (off + length c1) c2 = blit b off (c1 @ c2)"
  by (simp add: blit_def ac_simps)

lemma blit_Nil: "blit b off [] = b"
  by (simp add: blit_def)

lemma take_blit_0: "length c \<le> length b \<Longrightarrow> take (length c) (blit b 0 c) = c"
  by (simp add: blit_def)

lemma stream_read_data:
  assumes "ReadFails \<notin> set (read_script st)" and "0 \<le> off" and "0 < len"
    and "off + len \<le> int (length b)" and "pending st \<noteq> []"
  shows "\<exists>k st'. 1 \<le> k \<and> k \<le> nat len \<and> k \<le> length (pending st) \<and>
     stream_read st b off len = (Inr (int k), blit b (nat off) (take k (pending st)), st') \<and>
     pending st' = drop k (pending st) \<and> ReadFails \<notin> set (read_script st') \<and>
     requested st' = requested st @ [len]"
proof (cases "read_script st")
  case Nil
  let ?k = "min (nat len) (length (pending st))"
  have "1 \<le> ?k" using assms(3,5) by (cases "pending st") auto
  then show ?thesis using Nil assms
    by (intro exI[of _ ?k]) (auto simp: stream_read_def Let_def min_def)
next
  case (Cons e rest)
  then obtain n where e: "e = Delivers n" using assms(1) by (cases e) auto
  let ?k = "min (min (Suc n) (nat len)) (length (pending st))"
  have "1 \<le> ?k" using assms(3,5) by (cases "pending st") auto
  then show ?thesis using Cons e assms
    by (intro exI[of _ ?k]) (auto simp: stream_read_def Let_def min_def)
qed

lemma read_exact_loop_ok:
  assumes "ReadFails \<notin> set (read_script st)" and "0 \<le> offset" and "0 \<le> iToRead"
    and "nat iToRead \<le> length (pending st)"
    and "offset + iToRead \<le> int (length buffer)" and "length buffer < 2 ^ 31"
  shows "\<exists>st'. read_exact_loop st buffer iToRead offset =
       (True, blit buffer (nat offset) (take (nat iToRead) (pending st)), st') \<and>
     pending st' = drop (nat iToRead) (pending st) \<and> ReadFails \<notin> set (read_script st')"
  using assms
proof (induction st buffer iToRead offset rule: read_exact_loop.induct)
  case (1 st buffer iToRead offset)
  show ?case
  proof (cases "iToRead > 0")
    case False
    then have "iToRead = 0" using "1.prems"(3) by simp
    then show ?thesis using "1.prems"(1)
      by (subst read_exact_loop.simps) (simp add: blit_Nil)
  next
    case True
    then have ne: "pending st \<noteq> []" using "1.prems"(4) by auto
    from stream_read_data[OF "1.prems"(1,2) True "1.prems"(5) ne]
    obtain k st' where k: "1 \<le> k" "k \<le> nat iToRead" "k \<le> length (pending st)"
      and rd: "stream_read st buffer offset iToRead =
         (Inr (int k), blit buffer (nat offset) (take k (pending st)), st')"
      and st': "pending st' = drop k (pending st)" "ReadFails \<notin> set (read_script st')"
      by blast
    let ?b = "blit buffer (nat offset) (take k (pending st))"
    have lenb: "length ?b = length buffer"
      using k "1.prems"(2,5) by (intro length_blit) simp
    have j1: "jint (iToRead - int k) = iToRead - int k"
      using k "1.prems" by (intro jint_id) auto
    have j2: "jint (offset + int k) = offset + int k"
      using k "1.prems" by (intro jint_id) auto
    have "\<exists>st''. read_exact_loop st' ?b (jint (iToRead - int k)) (jint (offset + int k)) =
       (True, blit ?b (nat (jint (offset + int k)))
                (take (nat (jint (iToRead - int k))) (pending st')), st'') \<and>
       pending st'' = drop (nat (jint (iToRead - int k))) (pending st') \<and>
       ReadFails \<notin> set (read_script st'')"
    proof (rule "1.IH"[OF True rd[symmetric] refl refl])
      show "\<not> int k < 1" using k by simp
      show "ReadFails \<notin> set (read_script st')" by (rule st')
      show "0 \<le> jint (offset + int k)" using j2 "1.prems"(2) by simp
      show "0 \<le> jint (iToRead - int k)" using j1 k by simp
      show "nat (jint (iToRead - int k)) \<le> length (pending st')"
        using j1 k st' "1.prems"(4) by simp
      show "jint (offset + int k) + jint (iToRead - int k) \<le> int (length ?b)"
        using j1 j2 lenb "1.prems"(5) by simp
      show "length ?b < 2 ^ 31" using lenb "1.prems"(6) by simp
    qed
    then obtain st'' where r: "read_exact_loop st' ?b (iToRead - int k) (offset + int k) =
       (True, blit ?b (nat (offset + int k)) (take (nat (iToRead - int k)) (pending st')), st'')"
      and p: "pending st'' = drop (nat (iToRead - int k)) (pending st')"
      and f: "ReadFails \<notin> set (read_script st'')"
      using j1 j2 by auto
    have off: "nat (offset + int k) = nat offset + length (take k (pending st))"
      using k "1.prems"(2) by (simp add: nat_add_distrib)
    have "blit ?b (nat (offset + int k)) (take (nat (iToRead - int k)) (pending st')) =
        blit buffer (nat offset) (take k (pending st) @ take (nat (iToRead - int k)) (pending st'))"
      unfolding off using k "1.prems"(2,4,5) st'
      by (intro blit_blit) (simp add: nat_diff_distrib)
    also have "take k (pending st) @ take (nat (iToRead - int k)) (pending st') =
        take (nat iToRead) (pending st)"
    proof -
      have "nat iToRead = k + nat (iToRead - int k)" using k by simp
      then show ?thesis using st' by (simp add: take_add)
    qed
    finally have b: "blit ?b (nat (offset + int k)) (take (nat (iToRead - int k)) (pending st')) =
        blit buffer (nat offset) (take (nat iToRead) (pending st))" .
    have d: "drop (nat (iToRead - int k)) (pending st') = drop (nat iToRead) (pending st)"
      using k st' by (simp add: nat_diff_distrib add.commute)
    show ?thesis
      using True rd r p f b d k j1 j2
      by (subst read_exact_loop.simps) simp
  qed
qed


lemma read_exact_ok:
  assumes "ReadFails \<notin> set (read_script st)" and "0 \<le> cnt"
    and "nat cnt \<le> length (pending st)"
    and "cnt \<le> int (length buffer)" and "length buffer < 2 ^ 31"
  shows "\<exists>st'. read_exact (Some st) buffer cnt =
       (True, blit buffer 0 (take (nat cnt) (pending st)), Some st') \<and>
     pending st' = drop (nat cnt) (pending st) \<and> ReadFails \<notin> set (read_script st')"
  using read_exact_loop_ok[OF assms(1) _ assms(2,3), of 0 buffer] assms(4,5)
  by (auto simp: read_exact_def)

lemma sint_u32_of_nat: "n < 2 ^ 31 \<Longrightarrow> sint (of_nat n :: 32 word) = int n"
  by (simp add: signed_of_nat signed_take_bit_int_eq_self)

lemma decode_frame_ok:
  assumes "length P \<le> nat TCPIP_BUFFER_SIZE"
    and "int (length buffer) = TCPIP_BUFFER_SIZE"
    and "ReadFails \<notin> set (read_script st)"
    and "pending st = native_u32 (of_nat (length P)) @ P @ rest"
    and "0 \<le> inputBufferId" and "length P \<le> capacity"
  shows "\<exists>b' st'. decode_frame inputBufferId capacity (Some st) buffer = (Inr P, b', Some st') \<and>
     pending st' = rest \<and> length b' = length buffer \<and> ReadFails \<notin> set (read_script st')"
proof -
  have lb: "length buffer = 2000000" "length buffer < 2 ^ 31"
    using assms(2) by (simp_all add: TCPIP_BUFFER_SIZE_def)
  have lp: "length P \<le> 2000000" using assms(1) by (simp add: TCPIP_BUFFER_SIZE_def)
  let ?L = "of_nat (length P) :: 32 word"
  have n4: "length (native_u32 ?L) = 4" by (simp add: native_u32_def)
  from read_exact_ok[OF assms(3), of 4 buffer] assms(4) lb n4
  obtain st1 where 1: "read_exact (Some st) buffer 4 =
       (True, blit buffer 0 (native_u32 ?L), Some st1)"
    and p1: "pending st1 = P @ rest" and f1: "ReadFails \<notin> set (read_script st1)"
    by auto
  let ?b1 = "blit buffer 0 (native_u32 ?L)"
  have b1: "?b1 = native_u32 ?L @ drop 4 buffer" by (simp add: blit_def n4)
  have lb1: "length ?b1 = length buffer" using lb n4 by (intro length_blit) simp
  have len: "byteArrayToInt ?b1 = int (length P)"
    unfolding b1 byteArrayToInt_native using lp by (intro sint_u32_of_nat) simp
  from read_exact_ok[OF f1, of "int (length P)" ?b1] p1 lp lb lb1
  obtain st2 where 2: "read_exact (Some st1) ?b1 (int (length P)) =
       (True, blit ?b1 0 P, Some st2)"
    and p2: "pending st2 = rest" and f2: "ReadFails \<notin> set (read_script st2)"
    by auto
  have lb2: "length (blit ?b1 0 P) = length buffer"
    using lp lb lb1 by (simp add: length_blit)
  have put: "ByteBuffer_put capacity (blit ?b1 0 P) (int (length P)) = Some P"
    using lp lb lb2 lb1 assms(6) take_blit_0[of P ?b1]
    by (simp add: ByteBuffer_put_def)
  show ?thesis
    using 1 2 len put p2 f2 lb2 lp assms(5)
    by (simp add: decode_frame_def TCPIP_BUFFER_SIZE_def)
qed

subsection \<open>A frame sent by the android callback and decoded by the viewer\<close>

text \<open>
  Claim C1. Let \<open>P\<close> be a payload of at least one and at most 2000000 bytes that
  arrives at the android callback as one complete frame (FRAME_END set, neither CONFIG
  nor CODECSIDEINFO), with no partial frame outstanding and a socket that takes every
  send in full. The callback puts the four length bytes and then \<open>P\<close> on the wire.
  When the viewer's stream delivers these bytes, cut into reads in any way, without a
  read failure, and the codec hands out an input buffer with room for \<open>P\<close>, one
  pass of the frame loop queues exactly \<open>P\<close> and leaves nothing unread.
\<close>

theorem frame_roundtrip:
  assumes "P \<noteq> []" and "int (length P) \<le> TCPIP_BUFFER_SIZE"
    and "sock_script s = []" and "p_buf_partial_begin s = None"
    and "flags b AND FLAG_FRAME_END K \<noteq> 0" and "flags b AND FLAG_CONFIG K = 0"
    and "flags b AND FLAG_CODECSIDEINFO K = 0" and "data b = P"
    and "int (length buffer) = TCPIP_BUFFER_SIZE" and "ReadFails \<notin> set (read_script st)"
    and "0 \<le> inputBufferId" and "length P \<le> capacity"
  shows "\<exists>s' b' st'. encoder_buffer_callback_android K s b = Inr s' \<and>
     wire s' = wire s @ native_u32 (of_nat (length P)) @ P \<and>
     decode_frame inputBufferId capacity
       (Some (st\<lparr>pending := drop (length (wire s)) (wire s')\<rparr>)) buffer = (Inr P, b', Some st') \<and>
     pending st' = []"
proof -
  have lp: "length P < 2 ^ 32" "length P \<le> nat TCPIP_BUFFER_SIZE"
    using assms(2) by (simp_all add: TCPIP_BUFFER_SIZE_def)
  have n: "buf_length b \<noteq> 0" using buf_length_0_iff[of b] lp assms(1,8) by simp
  have bl: "buf_length b = of_nat (length P)" using assms(8) by (simp add: buf_length_def)
  have tk: "take (unat (of_nat (length P) :: 32 word)) (data b) = P"
    using take_unat_buf_length[of b] lp assms(8) by (simp add: bl)
  let ?s' = "handle_frame_end (s\<lparr>wire := wire s @ native_u32 (of_nat (length P)) @ P\<rparr>)"
  have 1: "encoder_buffer_callback_android K s b = Inr ?s'"
    using android_complete[OF assms(3,4,5,6,7) n] by (simp only: bl tk)
  have w: "wire ?s' = wire s @ native_u32 (of_nat (length P)) @ P"
    by (simp add: handle_frame_end_def)
  let ?st = "st\<lparr>pending := drop (length (wire s)) (wire ?s')\<rparr>"
  have p: "pending ?st = native_u32 (of_nat (length P)) @ P @ []"
    by (simp add: w)
  have f: "ReadFails \<notin> set (read_script ?st)" using assms(10) by simp
  from decode_frame_ok[OF lp(2) assms(9) f p assms(11,12)]
  obtain b' st' where "decode_frame inputBufferId capacity (Some ?st) buffer = (Inr P, b', Some st')"
    "pending st' = []" by blast
  with 1 w show ?thesis by blast
qed

theorem frame_roundtrip_witness:
  "\<exists>s' b' st'.
     encoder_buffer_callback_android mmal_header_bits (initial_sender 1920 1080 [])
       \<lparr>flags = 4, data = [7, 8, 9]\<rparr> = Inr s' \<and>
     wire s' = native_u32 3 @ [7, 8, 9] \<and>
     decode_frame 0 100
       (Some \<lparr>pending = wire s', read_script = [Delivers 0, Delivers 1], requested = []\<rparr>)
       (replicate 2000000 0) = (Inr [7, 8, 9], b', Some st') \<and>
     pending st' = []"
proof -
  let ?st = "\<lparr>pending = [], read_script = [Delivers 0, Delivers 1], requested = []\<rparr>"
  have "\<exists>s' b' st'. encoder_buffer_callback_android mmal_header_bits (initial_sender 1920 1080 [])
       \<lparr>flags = 4, data = [7, 8, 9]\<rparr> = Inr s' \<and>
     wire s' = wire (initial_sender 1920 1080 []) @ native_u32 (of_nat (length [7, 8, 9 :: byte]))
        @ [7, 8, 9] \<and>
     decode_frame 0 100
       (Some (?st\<lparr>pending := drop (length (wire (initial_sender 1920 1080 []))) (wire s')\<rparr>))
       (replicate 2000000 0) = (Inr [7, 8, 9], b', Some st') \<and>
     pending st' = []"
    by (rule frame_roundtrip [where K = mmal_header_bits])
      (simp_all add: initial_sender_def mmal_header_bits_def TCPIP_BUFFER_SIZE_def)
  then show ?thesis
    by (simp add: initial_sender_def)
qed

section \<open>The raw_tcp mode\<close>

lemma raw_tcp_open:
  assumes "sock_script s = []" and "length (data b) < 2 ^ 32"
  shows "\<exists>s'. encoder_buffer_callback_raw_tcp K s b = Inr s' \<and> sock_script s' = [] \<and>
     wire s' = wire s @ (if flags b AND FLAG_CODECSIDEINFO K \<noteq> 0 then [] else data b)"
proof (cases "data b = []")
  case True
  then have "buf_length b = 0" by (simp add: buf_length_def)
  then show ?thesis using True assms(1) by (simp add: encoder_buffer_callback_raw_tcp_def)
next
  case False
  then have n: "buf_length b \<noteq> 0" using buf_length_0_iff[OF assms(2)] by simp
  have "unat (buf_length b) = length (data b)"
    unfolding buf_length_def using assms(2) by (rule unat_u32)
  then have u: "uint (buf_length b) = int (length (data b))"
    by (simp only: uint_nat)
  show ?thesis using n u assms(1) take_unat_buf_length[OF assms(2)]
    by (simp add: encoder_buffer_callback_raw_tcp_def send_def handle_frame_end_def)
qed

text \<open>
  Claim C6, as the callback has it. In raw_tcp mode, on a socket that takes every send in
  full, the wire receives the bytes of every buffer that is not codec side information,
  verbatim and in order, and nothing else: neither a kind tag nor a length precedes
  them, so frames are not delimited on the wire.
\<close>

theorem raw_tcp_sends_payload_only:
  assumes "sock_script s = []" and "\<forall>b \<in> set bs. length (data b) < 2 ^ 32"
  shows "\<exists>s'. run_callbacks (encoder_buffer_callback_raw_tcp K) s bs = Inr s' \<and>
     wire s' = wire s @ concat (map data (filter (\<lambda>b. flags b AND FLAG_CODECSIDEINFO K = 0) bs))"
  using assms
proof (induction bs arbitrary: s)
  case Nil
  then show ?case by simp
next
  case (Cons b bs)
  from raw_tcp_open[OF Cons.prems(1), of b K] Cons.prems(2)
  obtain s1 where 1: "encoder_buffer_callback_raw_tcp K s b = Inr s1" "sock_script s1 = []"
    "wire s1 = wire s @ (if flags b AND FLAG_CODECSIDEINFO K \<noteq> 0 then [] else data b)"
    by auto
  from Cons.IH[OF 1(2)] Cons.prems(2)
  obtain s' where 2: "run_callbacks (encoder_buffer_callback_raw_tcp K) s1 bs = Inr s'"
    "wire s' = wire s1 @ concat (map data (filter (\<lambda>b. flags b AND FLAG_CODECSIDEINFO K = 0) bs))"
    by auto
  show ?case using 1 2 by simp
qed

theorem raw_tcp_sends_payload_only_witness:
  "\<exists>s'. run_callbacks (encoder_buffer_callback_raw_tcp mmal_header_bits)
       (initial_sender 1920 1080 [])
       [\<lparr>flags = 4, data = [1, 2, 3]\<rparr>, \<lparr>flags = 128, data = [9]\<rparr>, \<lparr>flags = 4, data = [4, 5]\<rparr>]
     = Inr s' \<and> wire s' = [1, 2, 3, 4, 5]"
  using raw_tcp_sends_payload_only [of "initial_sender 1920 1080 []"
      "[\<lparr>flags = 4, data = [1, 2, 3]\<rparr>, \<lparr>flags = 128, data = [9]\<rparr>, \<lparr>flags = 4, data = [4, 5]\<rparr>]"
      mmal_header_bits]
  by (simp add: initial_sender_def mmal_header_bits_def)

text \<open>
  A complete frame of three bytes in raw_tcp mode: the wire holds the three bytes and
  not the four length bytes followed by them.
\<close>

theorem raw_tcp_no_length_prefix:
  "encoder_buffer_callback_raw_tcp mmal_header_bits (initial_sender 1920 1080 [])
       \<lparr>flags = 4, data = [1, 2, 3]\<rparr>
     = Inr ((initial_sender 1920 1080 [])\<lparr>wire := [1, 2, 3], i64FramesCnt := 1\<rparr>) \<and>
   [1, 2, 3] \<noteq> native_u32 3 @ [1, 2, 3 :: byte]"
  by (simp add: encoder_buffer_callback_raw_tcp_def initial_sender_def mmal_header_bits_def
      buf_length_def send_def handle_frame_end_def native_u32_def)

section \<open>Sending and receiving a requested number of bytes\<close>

lemma read_exact_loop_fatal:
  assumes "0 < iToRead" and "0 \<le> offset" and "offset + iToRead \<le> int (length buffer)"
    and "pending st = [] \<or> (\<exists>rest. read_script st = ReadFails # rest)"
  shows "fst (read_exact_loop st buffer iToRead offset) = False"
  using assms
  by (subst read_exact_loop.simps)
    (auto simp: stream_read_def Let_def split: list.splits read_step.splits)

lemma SendToAndroid_short:
  assumes "sock_script s = Accepts n # rest" and "n < len" 
  shows "SendToAndroid s buf len = Inl (Exit 1259)"
  using assms by (simp add: SendToAndroid_def send_def)

lemma SendToAndroid_error:
  assumes "sock_script s = SendError # rest"
  shows "SendToAndroid s buf len = Inl (Exit 1259)"
  using assms by (simp add: SendToAndroid_def send_def)

lemma SendToAndroid_full:
  assumes "sock_script s = [] \<or> (\<exists>n rest. sock_script s = Accepts n # rest \<and> len \<le> n)"
    and "len \<le> length buf"
  shows "SendToAndroid s buf len =
     Inr (s\<lparr>wire := wire s @ take len buf, sock_script := tl (sock_script s)\<rparr>)"
  using assms by (auto simp: SendToAndroid_def send_def min_def)

lemma raw_tcp_short:
  assumes "buf_length b \<noteq> 0" and "flags b AND FLAG_CODECSIDEINFO K = 0"
    and "(\<exists>n rest. sock_script s = Accepts n # rest \<and> n < unat (buf_length b)) \<or>
         (\<exists>rest. sock_script s = SendError # rest)"
  shows "encoder_buffer_callback_raw_tcp K s b = Inl (Exit 1647)"
proof -
  have l: "length (take (unat (buf_length b)) (data b)) = unat (buf_length b)"
    using unat_buf_length_le[of b] by simp
  have ne: "uint (buf_length b) \<noteq> int n" if "n < unat (buf_length b)" for n
    unfolding uint_nat using that by (simp del: of_nat_unat)
  have ne1: "uint (buf_length b) \<noteq> - 1"
    using uint_ge_0[of "buf_length b"] by linarith
  from assms(3) show ?thesis
  proof (elim disjE exE conjE)
    fix n rest
    assume "sock_script s = Accepts n # rest" "n < unat (buf_length b)"
    then show ?thesis using assms(1,2) ne[of n] l
      by (simp add: encoder_buffer_callback_raw_tcp_def send_def min_def del: length_take)
  next
    fix rest
    assume "sock_script s = SendError # rest"
    then show ?thesis using assms(1,2) ne1
      by (simp add: encoder_buffer_callback_raw_tcp_def send_def)
  qed
qed

lemma frame_loop_length_read_fails:
  assumes "\<not> Thread_interrupted interrupts" and "read_exact ins buffer 4 = (False, b, ins')"
  shows "frame_loop interrupts ids capacity ins buffer queued = (exception_caught, queued, ins')"
  using assms by (subst frame_loop.simps) (simp add: decode_frame_def)

lemma frame_loop_payload_read_fails:
  assumes "\<not> Thread_interrupted interrupts" and "read_exact ins buffer 4 = (True, b1, ins1)"
    and "byteArrayToInt b1 \<le> TCPIP_BUFFER_SIZE" and "0 \<le> dequeueInputBuffer ids"
    and "read_exact ins1 b1 (byteArrayToInt b1) = (False, b, ins')"
  shows "frame_loop interrupts ids capacity ins buffer queued = (exception_caught, queued, ins')"
  using assms by (subst frame_loop.simps) (simp add: decode_frame_def)

lemma config_loop_read_fails:
  assumes "read_exact ins buffer 4 = (False, b, ins') \<or>
     (\<exists>b1 ins1. read_exact ins buffer 4 = (True, b1, ins1) \<and>
        read_exact ins1 b1 (byteArrayToInt b1) = (False, b, ins'))"
  shows "config_loop (Suc n) ids capacity ins buffer queued =
     (Some exception_caught, ids, queued, b, ins')"
  using assms by (auto simp: decode_config_def)

lemma run_first_read_fails:
  assumes "read_exact ins (replicate (nat TCPIP_BUFFER_SIZE) 0) 4 = (False, b, ins')"
  shows "DecoderThread_run interrupts ids capacity ins = (exception_caught, [], ins')"
  using config_loop_read_fails[of ins "replicate (nat TCPIP_BUFFER_SIZE) 0" b ins' "Suc 0"
      ids capacity "[]"] assms
  by (simp add: DecoderThread_run_def numeral_2_eq_2 del: config_loop.simps)

lemma frame_loop_stream_ends:
  assumes "\<not> Thread_interrupted interrupts" and "4 \<le> length buffer"
    and "pending st = [] \<or> (\<exists>rest. read_script st = ReadFails # rest)"
  shows "\<exists>st'. frame_loop interrupts ids capacity (Some st) buffer queued
      = (exception_caught, queued, Some st') \<and> pending st' = pending st"
proof -
  obtain ok b st' where l: "read_exact_loop st buffer 4 0 = (ok, b, st')"
    by (cases "read_exact_loop st buffer 4 0") auto
  have "fst (read_exact_loop st buffer 4 0) = False"
    using assms(2,3) by (intro read_exact_loop_fatal) simp_all
  with l have ok: "ok = False" by simp
  have p: "pending st' = pending st"
    using l assms(2,3)
    by (subst (asm) read_exact_loop.simps)
      (auto simp: stream_read_def Let_def split: if_splits list.splits read_step.splits)
  have "read_exact (Some st) buffer 4 = (False, b, Some st')"
    using l ok by (simp add: read_exact_def)
  from frame_loop_length_read_fails[OF assms(1) this] p show ?thesis by blast
qed

text \<open>
  Claim C5, as the code has it. Receiving: \<^verbatim>\<open>read_exact\<close> loops over short reads
  until exactly the requested bytes are in the buffer, however the transport cuts them;
  at the end of the stream or on a failing read it gives \<^verbatim>\<open>false\<close>, and
  a pass of the frame loop that starts there ends the loop. A
  \<^verbatim>\<open>false\<close> from the read of the length or from the read of the payload, in a
  pass of the frame loop or of the loop for SPS and PPS, ends the loop and with it
  \<^verbatim>\<open>DecoderThread.run\<close> through the catch block, with the units queued before and
  the stream as the failed read left it: nothing of the cut unit reaches the codec and
  nothing more is read. Sending: \<^verbatim>\<open>SendToAndroid\<close> makes one call of
  \<^verbatim>\<open>send\<close>; when that call takes all the bytes, exactly they are on the wire; when
  it takes fewer, also none, or fails, the process exits, and so does the raw_tcp
  callback. Nothing sends the rest and nothing reconnects.
\<close>

theorem transfers_whole_or_fatal:
  "(ReadFails \<notin> set (read_script st) \<and> 0 \<le> cnt \<and> nat cnt \<le> length (pending st) \<and>
      cnt \<le> int (length buffer) \<and> length buffer < 2 ^ 31 \<longrightarrow>
      (\<exists>st'. read_exact (Some st) buffer cnt =
          (True, blit buffer 0 (take (nat cnt) (pending st)), Some st') \<and>
        pending st' = drop (nat cnt) (pending st))) \<and>
   (0 < iToRead \<and> 0 \<le> offset \<and> offset + iToRead \<le> int (length buffer) \<and>
      (pending st = [] \<or> (\<exists>rest. read_script st = ReadFails # rest)) \<longrightarrow>
      fst (read_exact_loop st buffer iToRead offset) = False) \<and>
   (\<not> Thread_interrupted interrupts \<and> 4 \<le> length buffer \<and>
      (pending st = [] \<or> (\<exists>rest. read_script st = ReadFails # rest)) \<longrightarrow>
      (\<exists>st'. frame_loop interrupts ids capacity (Some st) buffer queued
          = (exception_caught, queued, Some st') \<and> pending st' = pending st)) \<and>
   (\<not> Thread_interrupted interrupts \<and> read_exact ins buffer 4 = (False, b, ins') \<longrightarrow>
      frame_loop interrupts ids capacity ins buffer queued = (exception_caught, queued, ins')) \<and>
   (\<not> Thread_interrupted interrupts \<and> read_exact ins buffer 4 = (True, b1, ins1) \<and>
      byteArrayToInt b1 \<le> TCPIP_BUFFER_SIZE \<and> 0 \<le> dequeueInputBuffer ids \<and>
      read_exact ins1 b1 (byteArrayToInt b1) = (False, b, ins') \<longrightarrow>
      frame_loop interrupts ids capacity ins buffer queued = (exception_caught, queued, ins')) \<and>
   (read_exact ins buffer 4 = (False, b, ins') \<or>
      (\<exists>b1 ins1. read_exact ins buffer 4 = (True, b1, ins1) \<and>
         read_exact ins1 b1 (byteArrayToInt b1) = (False, b, ins')) \<longrightarrow>
      config_loop (Suc n) ids capacity ins buffer queued =
        (Some exception_caught, ids, queued, b, ins')) \<and>
   (read_exact ins (replicate (nat TCPIP_BUFFER_SIZE) 0) 4 = (False, b, ins') \<longrightarrow>
      DecoderThread_run interrupts ids capacity ins = (exception_caught, [], ins')) \<and>
   ((sock_script s = [] \<or> (\<exists>n rest. sock_script s = Accepts n # rest \<and> len \<le> n)) \<and>
      len \<le> length buf \<longrightarrow>
      SendToAndroid s buf len =
        Inr (s\<lparr>wire := wire s @ take len buf, sock_script := tl (sock_script s)\<rparr>)) \<and>
   ((\<exists>n rest. sock_script s = Accepts n # rest \<and> n < len) \<or>
      (\<exists>rest. sock_script s = SendError # rest) \<longrightarrow>
      SendToAndroid s buf len = Inl (Exit 1259)) \<and>
   (buf_length mb \<noteq> 0 \<and> flags mb AND FLAG_CODECSIDEINFO K = 0 \<and>
      ((\<exists>n rest. sock_script s = Accepts n # rest \<and> n < unat (buf_length mb)) \<or>
       (\<exists>rest. sock_script s = SendError # rest)) \<longrightarrow>
      encoder_buffer_callback_raw_tcp K s mb = Inl (Exit 1647))"
  apply (intro conjI impI)
  subgoal using read_exact_ok[of st cnt buffer] by blast
  subgoal using read_exact_loop_fatal[of iToRead offset buffer st] by blast
  subgoal using frame_loop_stream_ends[of interrupts buffer st ids capacity queued] by blast
  subgoal using frame_loop_length_read_fails by blast
  subgoal using frame_loop_payload_read_fails by blast
  subgoal by (rule config_loop_read_fails)
  subgoal by (rule run_first_read_fails)
  subgoal using SendToAndroid_full[of s len buf] by blast
  subgoal using SendToAndroid_short[of s _ _ len buf] SendToAndroid_error[of s _ buf len] by blast
  subgoal using raw_tcp_short[of mb K s] by blast
  done

theorem transfers_whole_or_fatal_witness:
  "(\<exists>st'. read_exact
       (Some \<lparr>pending = [1, 2, 3, 4, 5], read_script = [Delivers 0, Delivers 0], requested = []\<rparr>)
       [0, 0, 0, 0, 0, 0] 4
     = (True, [1, 2, 3, 4, 0, 0], Some st') \<and> pending st' = [5]) \<and>
   fst (read_exact_loop \<lparr>pending = [1], read_script = [ReadFails], requested = []\<rparr>
       [0, 0, 0, 0] 3 1) = False \<and>
   (\<exists>st'. frame_loop [] [] 100
       (Some \<lparr>pending = [], read_script = [], requested = []\<rparr>) [0, 0, 0, 0] [[1]]
     = (exception_caught, [[1]], Some st') \<and> pending st' = []) \<and>
   frame_loop [] [] 100 None [0, 0, 0, 0] [[1]] = (exception_caught, [[1]], None) \<and>
   frame_loop [] [] 100
     (Some \<lparr>pending = [3, 0, 0, 0, 7], read_script = [], requested = []\<rparr>)
     [0, 0, 0, 0, 0, 0, 0, 0] [[1]]
     = (exception_caught, [[1]], Some \<lparr>pending = [], read_script = [], requested = [4, 3, 2]\<rparr>) \<and>
   config_loop (Suc 0) [] 100
     (Some \<lparr>pending = [2, 0, 0, 0, 7], read_script = [], requested = []\<rparr>)
     [0, 0, 0, 0, 0, 0, 0, 0] []
     = (Some exception_caught, [], [], [7, 0, 0, 0, 0, 0, 0, 0],
        Some \<lparr>pending = [], read_script = [], requested = [4, 2, 1]\<rparr>) \<and>
   DecoderThread_run [] [] 100 None = (exception_caught, [], None) \<and>
   SendToAndroid (initial_sender 1920 1080 [Accepts 4]) [1, 2, 3, 4] 4
     = Inr ((initial_sender 1920 1080 [])\<lparr>wire := [1, 2, 3, 4]\<rparr>) \<and>
   SendToAndroid (initial_sender 1920 1080 [SendError]) [1, 2, 3, 4] 4 = Inl (Exit 1259) \<and>
   encoder_buffer_callback_raw_tcp mmal_header_bits (initial_sender 1920 1080 [Accepts 1])
     \<lparr>flags = 4, data = [1, 2, 3]\<rparr> = Inl (Exit 1647)"
proof (intro conjI)
  show "\<exists>st'. read_exact
       (Some \<lparr>pending = [1, 2, 3, 4, 5], read_script = [Delivers 0, Delivers 0], requested = []\<rparr>)
       [0, 0, 0, 0, 0, 0] 4
     = (True, [1, 2, 3, 4, 0, 0], Some st') \<and> pending st' = [5]"
    using transfers_whole_or_fatal [THEN conjunct1, rule_format,
      of "\<lparr>pending = [1, 2, 3, 4, 5], read_script = [Delivers 0, Delivers 0], requested = []\<rparr>"
         4 "[0, 0, 0, 0, 0, 0]"]
    by (simp add: blit_def)
  show "fst (read_exact_loop \<lparr>pending = [1], read_script = [ReadFails], requested = []\<rparr>
       [0, 0, 0, 0] 3 1) = False"
    using transfers_whole_or_fatal [where st = "\<lparr>pending = [1], read_script = [ReadFails], requested = []\<rparr>"
      and buffer = "[0, 0, 0, 0]" and iToRead = 3 and offset = 1]
    by simp
  show "\<exists>st'. frame_loop [] [] 100
       (Some \<lparr>pending = [], read_script = [], requested = []\<rparr>) [0, 0, 0, 0] [[1]]
     = (exception_caught, [[1]], Some st') \<and> pending st' = []"
    using transfers_whole_or_fatal [where interrupts = "[]" and buffer = "[0, 0, 0, 0]"
      and st = "\<lparr>pending = [], read_script = [], requested = []\<rparr>"
      and ids = "[]" and capacity = 100 and queued = "[[1]]"]
    by (simp add: Thread_interrupted_def)
  show "frame_loop [] [] 100 None [0, 0, 0, 0] [[1]] = (exception_caught, [[1]], None)"
    using transfers_whole_or_fatal [where interrupts = "[]" and ins = None and buffer = "[0, 0, 0, 0]"
      and b = "[0, 0, 0, 0]" and ins' = None and ids = "[]" and capacity = 100
      and queued = "[[1]]"]
    by (simp add: Thread_interrupted_def read_exact_def)
  show "frame_loop [] [] 100
     (Some \<lparr>pending = [3, 0, 0, 0, 7], read_script = [], requested = []\<rparr>)
     [0, 0, 0, 0, 0, 0, 0, 0] [[1]]
     = (exception_caught, [[1]], Some \<lparr>pending = [], read_script = [], requested = [4, 3, 2]\<rparr>)"
    using transfers_whole_or_fatal [where interrupts = "[]"
      and ins = "Some \<lparr>pending = [3, 0, 0, 0, 7], read_script = [], requested = []\<rparr>"
      and buffer = "[0, 0, 0, 0, 0, 0, 0, 0]" and ?b1.0 = "[3, 0, 0, 0, 0, 0, 0, 0]"
      and ?ins1.0 = "Some \<lparr>pending = [7], read_script = [], requested = [4]\<rparr>"
      and ids = "[]" and b = "[7, 0, 0, 0, 0, 0, 0, 0]"
      and ins' = "Some \<lparr>pending = [], read_script = [], requested = [4, 3, 2]\<rparr>"
      and capacity = 100 and queued = "[[1]]"]
    by (simp add: read_exact_def read_exact_loop.simps stream_read_def TCPIP_BUFFER_SIZE_def
      dequeueInputBuffer_def Thread_interrupted_def blit_def jint_def byteArrayToInt_def)
  have r1: "read_exact (Some \<lparr>pending = [2, 0, 0, 0, 7], read_script = [], requested = []\<rparr>)
       [0, 0, 0, 0, 0, 0, 0, 0] 4
     = (True, [2, 0, 0, 0, 0, 0, 0, 0], Some \<lparr>pending = [7], read_script = [], requested = [4]\<rparr>)"
    by (simp add: read_exact_def read_exact_loop.simps stream_read_def blit_def jint_def)
  have r2: "read_exact (Some \<lparr>pending = [7], read_script = [], requested = [4]\<rparr>)
       [2, 0, 0, 0, 0, 0, 0, 0] (byteArrayToInt [2, 0, 0, 0, 0, 0, 0, 0])
     = (False, [7, 0, 0, 0, 0, 0, 0, 0],
        Some \<lparr>pending = [], read_script = [], requested = [4, 2, 1]\<rparr>)"
    by (simp add: read_exact_def read_exact_loop.simps stream_read_def blit_def jint_def
        byteArrayToInt_def)
  show "config_loop (Suc 0) [] 100
     (Some \<lparr>pending = [2, 0, 0, 0, 7], read_script = [], requested = []\<rparr>)
     [0, 0, 0, 0, 0, 0, 0, 0] []
     = (Some exception_caught, [], [], [7, 0, 0, 0, 0, 0, 0, 0],
        Some \<lparr>pending = [], read_script = [], requested = [4, 2, 1]\<rparr>)"
    using transfers_whole_or_fatal [where ins = "Some \<lparr>pending = [2, 0, 0, 0, 7], read_script = [], requested = []\<rparr>"
      and buffer = "[0, 0, 0, 0, 0, 0, 0, 0]" and b = "[7, 0, 0, 0, 0, 0, 0, 0]"
      and ins' = "Some \<lparr>pending = [], read_script = [], requested = [4, 2, 1]\<rparr>"
      and n = 0 and ids = "[]" and capacity = 100 and queued = "[]"] r1 r2
    by (simp del: config_loop.simps)
  show "DecoderThread_run [] [] 100 None = (exception_caught, [], None)"
    using transfers_whole_or_fatal [where ins = None and b = "replicate (nat TCPIP_BUFFER_SIZE) 0" and ins' = None
      and interrupts = "[]" and ids = "[]" and capacity = 100]
    by (simp add: read_exact_def)
  show "SendToAndroid (initial_sender 1920 1080 [Accepts 4]) [1, 2, 3, 4] 4
     = Inr ((initial_sender 1920 1080 [])\<lparr>wire := [1, 2, 3, 4]\<rparr>)"
    using transfers_whole_or_fatal [where s = "initial_sender 1920 1080 [Accepts 4]"
      and buf = "[1, 2, 3, 4]" and len = 4]
    by (simp add: initial_sender_def)
  show "SendToAndroid (initial_sender 1920 1080 [SendError]) [1, 2, 3, 4] 4 = Inl (Exit 1259)"
    using transfers_whole_or_fatal [where s = "initial_sender 1920 1080 [SendError]"
      and buf = "[1, 2, 3, 4]" and len = 4]
    by (simp add: initial_sender_def)
  show "encoder_buffer_callback_raw_tcp mmal_header_bits (initial_sender 1920 1080 [Accepts 1])
     \<lparr>flags = 4, data = [1, 2, 3]\<rparr> = Inl (Exit 1647)"
    using transfers_whole_or_fatal [where s = "initial_sender 1920 1080 [Accepts 1]" and K = mmal_header_bits
      and mb = "\<lparr>flags = 4, data = [1, 2, 3]\<rparr>"]
    by (simp add: initial_sender_def mmal_header_bits_def buf_length_def)
qed

text \<open>
  A transfer that the transport splits: \<^verbatim>\<open>send\<close> takes two of four bytes, and
  \<^verbatim>\<open>SendToAndroid\<close> exits instead of sending the other two. And a stream that
  ends inside a frame, after the units 9 and 8 and the length 2 with one byte of the
  payload: the read that returns \<open>-1\<close> ends \<^verbatim>\<open>DecoderThread.run\<close> through
  its catch block, after which the method returns; the process of the viewer is not
  ended.
\<close>

theorem short_send_is_fatal:
  "send (initial_sender 1920 1080 [Accepts 2]) [1, 2, 3, 4]
     = (2, (initial_sender 1920 1080 [])\<lparr>wire := [1, 2]\<rparr>) \<and>
   SendToAndroid (initial_sender 1920 1080 [Accepts 2]) [1, 2, 3, 4] 4 = Inl (Exit 1259) \<and>
   DecoderThread_run [] [] 3000000
     (Some \<lparr>pending = [1, 0, 0, 0, 9, 1, 0, 0, 0, 8, 2, 0, 0, 0, 7], read_script = [],
            requested = []\<rparr>)
   = (exception_caught, [[9], [8]],
      Some \<lparr>pending = [], read_script = [], requested = [4, 1, 4, 1, 4, 2, 1]\<rparr>)"
  by (simp add: SendToAndroid_def send_def initial_sender_def
      DecoderThread_run_def numeral_2_eq_2 decode_config_def decode_frame_def
      frame_loop.simps read_exact_def
      read_exact_loop.simps stream_read_def TCPIP_BUFFER_SIZE_def dequeueInputBuffer_def
      Thread_interrupted_def blit_def jint_def byteArrayToInt_def ByteBuffer_put_def)

section \<open>Length fields beyond the buffer\<close>

text \<open>
  What the frame loop does with a length field whose unsigned value exceeds the buffer
  size: the pass ends in a fault with the stream as the read of the four length bytes
  left it, so nothing further is asked of the stream; when the value also exceeds the
  buffer size as an \<^verbatim>\<open>int\<close>, the fault is the one of the length guard.
\<close>

lemma read_exact_nothing:
  "cnt \<le> 0 \<Longrightarrow> read_exact (Some st) buffer cnt = (True, buffer, Some st)"
  by (simp add: read_exact_def read_exact_loop.simps)

lemma sint_32: "sint L = (uint L + 2 ^ 31) mod 2 ^ 32 - 2 ^ 31" for L :: "32 word"
  by (simp add: sint_uint signed_take_bit_eq_take_bit_shift take_bit_eq_mod)

lemma frame_loop_oversize:
  assumes "ReadFails \<notin> set (read_script st)" and "pending st = native_u32 L @ rest"
    and "int (length buffer) = TCPIP_BUFFER_SIZE" and "TCPIP_BUFFER_SIZE < uint L"
  shows "\<exists>f b1 st1. read_exact (Some st) buffer 4 = (True, b1, Some st1) \<and>
     pending st1 = rest \<and>
     decode_frame inputBufferId capacity (Some st) buffer = (Inl f, b1, Some st1) \<and>
     (TCPIP_BUFFER_SIZE < sint L \<longrightarrow> f = frame_too_long (sint L))"
proof -
  have lb: "length buffer = 2000000" "length buffer < 2 ^ 31"
    using assms(3) by (simp_all add: TCPIP_BUFFER_SIZE_def)
  have n4: "length (native_u32 L) = 4" by (simp add: native_u32_def)
  from read_exact_ok[OF assms(1), of 4 buffer] assms(2) lb n4
  obtain st1 where 1: "read_exact (Some st) buffer 4 =
       (True, blit buffer 0 (native_u32 L), Some st1)"
    and p1: "pending st1 = rest"
    by auto
  let ?b1 = "blit buffer 0 (native_u32 L)"
  have b1: "?b1 = native_u32 L @ drop 4 buffer" by (simp add: blit_def n4)
  have len: "byteArrayToInt ?b1 = sint L"
    unfolding b1 by (rule byteArrayToInt_native)
  show ?thesis
  proof (cases "TCPIP_BUFFER_SIZE < sint L")
    case True
    then show ?thesis using 1 p1 len by (simp add: decode_frame_def)
  next
    case False
    have "sint L < 0"
    proof (cases "uint L < 2 ^ 31")
      case True
      then have "(uint L + 2 ^ 31) mod 2 ^ 32 = uint L + 2 ^ 31"
        using uint_ge_0[of L] by (intro mod_pos_pos_trivial) simp_all
      then have "sint L = uint L" by (simp add: sint_32)
      with False assms(4) show ?thesis by simp
    next
      case big: False
      have "uint L + 2 ^ 31 = (uint L - 2 ^ 31) + 2 ^ 32" by simp
      then have "(uint L + 2 ^ 31) mod 2 ^ 32 = (uint L - 2 ^ 31) mod 2 ^ 32"
        by (simp only: mod_add_self2)
      also have "\<dots> = uint L - 2 ^ 31"
        using big uint_bounded[of L] by (intro mod_pos_pos_trivial) simp_all
      finally have "sint L = uint L - 2 ^ 32" by (simp add: sint_32)
      then show ?thesis using uint_bounded[of L] by simp
    qed
    then have neg: "sint L \<le> 0" "sint L < 0" by simp_all
    have put: "ByteBuffer_put capacity ?b1 (sint L) = None"
      using neg by (simp add: ByteBuffer_put_def)
    show ?thesis
      using 1 p1 len False put read_exact_nothing[OF neg(1), of st1 ?b1]
      by (cases "0 \<le> inputBufferId") (simp_all add: decode_frame_def)
  qed
qed

text \<open>
  Claim C4 at two length fields. The first unit of a stream announces 2000001 bytes:
  the SPS/PPS loop has no length guard and asks the stream for 2000001 bytes into the
  buffer of 2000000; only the bounds check of \<^verbatim>\<open>read\<close> stops it. In the frame
  loop the four bytes 00 00 00 80, unsigned 2147483648, are the negative
  \<^verbatim>\<open>int\<close> -2147483648: the guard \<^verbatim>\<open>iFrameLen > TCPIP_BUFFER_SIZE\<close> lets it
  pass, \<^verbatim>\<open>read_exact\<close> is called with it and reads nothing, and the pass ends
  only when \<^verbatim>\<open>put\<close> rejects the negative length.
\<close>

theorem oversize_length_reaches_read:
  "decode_config 0 3000000
       (Some \<lparr>pending = [0x81, 0x84, 0x1E, 0x00], read_script = [], requested = []\<rparr>)
       (replicate 2000000 0)
     = (Inl read_exact_failed, [0x81, 0x84, 0x1E, 0x00] @ replicate 1999996 0,
        Some \<lparr>pending = [], read_script = [], requested = [4, 2000001]\<rparr>) \<and>
   decode_frame 0 3000000
       (Some \<lparr>pending = [0x00, 0x00, 0x00, 0x80], read_script = [], requested = []\<rparr>)
       (replicate 2000000 0)
     = (Inl (put_rejected (- 2147483648)), [0x00, 0x00, 0x00, 0x80] @ replicate 1999996 0,
        Some \<lparr>pending = [], read_script = [], requested = [4]\<rparr>)"
  by (simp add: decode_config_def decode_frame_def read_exact_def
      read_exact_loop.simps stream_read_def blit_def jint_def byteArrayToInt_def
      TCPIP_BUFFER_SIZE_def ByteBuffer_put_def)

section \<open>The read loop of TcpIpReader\<close>

text \<open>
  Claim C10 at a stream that ends after two of four requested bytes.
  \<^verbatim>\<open>TcpIpReader.read_exact\<close> adds the \<open>-1\<close> of each further \<^verbatim>\<open>read\<close> to
  its counters until the offset is negative, and the
  \<^verbatim>\<open>IndexOutOfBoundsException\<close> of the next call leaves the method: it does not
  return \<^verbatim>\<open>false\<close>. \<^verbatim>\<open>DecoderThread.read_exact\<close> on the same stream returns
  \<^verbatim>\<open>false\<close> at the first \<open>-1\<close>.
\<close>

theorem TcpIpReader_read_exact_at_end_of_stream:
  "TcpIpReader_read_exact (Some \<lparr>pending = [1, 2], read_script = [], requested = []\<rparr>)
       [0, 0, 0, 0] 4
     = (Inl IndexOutOfBoundsException, [1, 2, 0, 0],
        Some \<lparr>pending = [], read_script = [], requested = [4, 2, 3, 4, 5]\<rparr>) \<and>
   read_exact (Some \<lparr>pending = [1, 2], read_script = [], requested = []\<rparr>) [0, 0, 0, 0] 4
     = (False, [1, 2, 0, 0], Some \<lparr>pending = [], read_script = [], requested = [4, 2]\<rparr>)"
  by (simp add: TcpIpReader_read_exact_def read_exact_def TcpIpReader_loop.simps
      read_exact_loop.simps stream_read_def blit_def jint_def)

section \<open>Motion detection\<close>

lemma isqrt_from_spec:
  "k * k \<le> n \<Longrightarrow>
   isqrt_from n k * isqrt_from n k \<le> n \<and> n < (isqrt_from n k + 1) * (isqrt_from n k + 1)"
proof (induction n k rule: isqrt_from.induct)
  case (1 n k)
  show ?case
  proof (cases "(k + 1) * (k + 1) \<le> n")
    case True
    with "1.IH" show ?thesis by (subst (1 2 3 4) isqrt_from.simps) simp
  next
    case False
    with "1.prems" show ?thesis by (subst (1 2 3 4) isqrt_from.simps) simp
  qed
qed

lemma isqrt_spec: "isqrt n * isqrt n \<le> n \<and> n < (isqrt n + 1) * (isqrt n + 1)"
  unfolding isqrt_def by (rule isqrt_from_spec) simp

lemma isqrt_floor_sqrt: "isqrt n = nat \<lfloor>sqrt (real n)\<rfloor>"
proof -
  let ?r = "isqrt n"
  have 1: "real ?r \<le> sqrt (real n)"
  proof (rule real_le_rsqrt)
    have "real (?r * ?r) \<le> real n" using isqrt_spec[of n] by (intro of_nat_mono) simp
    then show "(real ?r)\<^sup>2 \<le> real n" by (simp add: power2_eq_square)
  qed
  have 2: "sqrt (real n) < real ?r + 1"
  proof (rule real_less_lsqrt)
    have "real n < real ((?r + 1) * (?r + 1))" using isqrt_spec[of n] by (simp only: of_nat_less_iff)
    then show "real n < (real ?r + 1)\<^sup>2" by (simp add: power2_eq_square algebra_simps)
  qed simp
  have "\<lfloor>sqrt (real n)\<rfloor> = int ?r"
    using 1 2 by (intro floor_unique) simp_all
  then show ?thesis by simp
qed


lemma sint_neg_square: "sint (- w) * sint (- w) = sint w * sint w" for w :: "8 word"
proof -
  have r: "- 128 \<le> sint w" "sint w < 128" using sint_ge[of w] sint_lt[of w] by simp_all
  have "sint (- w) = signed_take_bit 7 (- sint w)" by (simp add: sint_word_ariths)
  moreover have "signed_take_bit 7 (- sint w) = (if sint w = - 128 then - 128 else - sint w)"
  proof (cases "sint w = - 128")
    case True
    then show ?thesis by simp
  next
    case False
    with r have "- 128 \<le> - sint w" "- sint w < 128" by simp_all
    then have "signed_take_bit 7 (- sint w) = - sint w"
      by (intro signed_take_bit_int_eq_self) simp_all
    with False show ?thesis by simp
  qed
  ultimately show ?thesis by (simp split: if_splits)
qed

lemma sint_square_le: "sint w * sint w \<le> 16384" for w :: "8 word"
proof -
  have r: "- 128 \<le> sint w" "sint w < 128" using sint_ge[of w] sint_lt[of w] by simp_all
  have "\<bar>sint w\<bar> \<le> 128" using r by simp
  then have "\<bar>sint w\<bar> * \<bar>sint w\<bar> \<le> 128 * 128" by (intro mult_mono) simp_all
  then show ?thesis by (simp add: abs_mult_self_eq)
qed

lemma isqrt_le_181: assumes "n \<le> 32768" shows "isqrt n \<le> 181"
proof (rule ccontr)
  assume "\<not> isqrt n \<le> 181"
  then have "182 \<le> isqrt n" by simp
  then have "182 * 182 \<le> isqrt n * isqrt n" by (intro mult_mono) simp_all
  with isqrt_spec[of n] assms show False by simp
qed

lemma motion_magnitude_val:
  "unat (motion_magnitude c) =
     nat \<lfloor>sqrt (real_of_int ((sint (x_vector c))\<^sup>2 + (sint (y_vector c))\<^sup>2))\<rfloor>"
proof -
  let ?n = "nat (sint (x_vector c) * sint (x_vector c) + sint (y_vector c) * sint (y_vector c))"
  have n: "?n \<le> 32768"
    using sint_square_le[of "x_vector c"] sint_square_le[of "y_vector c"] by simp
  have "motion_magnitude c = of_nat (isqrt ?n)"
    by (simp add: motion_magnitude_def Let_def sint_neg_square)
  moreover have "isqrt ?n < 256" using isqrt_le_181[OF n] by simp
  ultimately have "unat (motion_magnitude c) = isqrt ?n"
    by (simp add: unat_of_nat)
  also have "\<dots> = nat \<lfloor>sqrt (real ?n)\<rfloor>" by (rule isqrt_floor_sqrt)
  also have "real ?n = real_of_int ((sint (x_vector c))\<^sup>2 + (sint (y_vector c))\<^sup>2)"
    by (simp add: power2_eq_square)
  finally show ?thesis .
qed

lemma Max_insert_Max:
  fixes m :: "'a :: linorder"
  assumes "finite R" and "finite S"
  shows "Max (insert (Max (insert m R)) S) = Max (insert m (R \<union> S))"
proof (cases "S = {}")
  case True
  then show ?thesis by simp
next
  case False
  have "Max (insert (Max (insert m R)) S) = max (Max (insert m R)) (Max S)"
    using assms(2) False by (rule Max_insert)
  also have "\<dots> = Max (insert m R \<union> S)"
    using assms False by (intro Max_Un[symmetric]) simp_all
  finally show ?thesis by simp
qed

lemma DetectMotion_row:
  assumes "\<forall>x \<in> set xs. x + (n + 1) * j < length imv"
  shows "fold (DetectMotion_cell imv n j) xs (Some m) =
     Some (Max (insert m ((\<lambda>x. motion_magnitude (imv ! (x + (n + 1) * j))) ` set xs)))"
  using assms
proof (induction xs arbitrary: m)
  case Nil
  then show ?case by simp
next
  case (Cons x xs)
  let ?f = "\<lambda>x. motion_magnitude (imv ! (x + (n + 1) * j))"
  have "fold (DetectMotion_cell imv n j) (x # xs) (Some m) =
      fold (DetectMotion_cell imv n j) xs (Some (max m (?f x)))"
    using Cons.prems by (simp add: DetectMotion_cell_def)
  also have "\<dots> = Some (Max (insert (max m (?f x)) (?f ` set xs)))"
    using Cons.prems by (intro Cons.IH) simp
  also have "Max (insert (max m (?f x)) (?f ` set xs)) = Max (insert m (?f ` set (x # xs)))"
    using Max_insert_Max[of "{?f x}" "?f ` set xs" m] by (simp add: max.commute)
  finally show ?case .
qed

lemma DetectMotion_rows:
  assumes "\<forall>j \<in> set js. \<forall>x < n. x + (n + 1) * j < length imv"
  shows "fold (\<lambda>j acc. fold (DetectMotion_cell imv n j) [0..<n] acc) js (Some m) =
     Some (Max (insert m ((\<lambda>(x, j). motion_magnitude (imv ! (x + (n + 1) * j))) `
                 ({..<n} \<times> set js))))"
  using assms
proof (induction js arbitrary: m)
  case Nil
  then show ?case by simp
next
  case (Cons j js)
  let ?f = "\<lambda>(x, j). motion_magnitude (imv ! (x + (n + 1) * j))"
  let ?row = "(\<lambda>x. motion_magnitude (imv ! (x + (n + 1) * j))) ` set [0..<n]"
  let ?m' = "Max (insert m ?row)"
  have row: "fold (DetectMotion_cell imv n j) [0..<n] (Some m) = Some ?m'"
    using Cons.prems by (intro DetectMotion_row) simp
  have "fold (\<lambda>j acc. fold (DetectMotion_cell imv n j) [0..<n] acc) (j # js) (Some m) =
      fold (\<lambda>j acc. fold (DetectMotion_cell imv n j) [0..<n] acc) js (Some ?m')"
    by (simp add: row)
  also have "\<dots> = Some (Max (insert ?m' (?f ` ({..<n} \<times> set js))))"
    using Cons.prems by (intro Cons.IH) simp
  also have "Max (insert ?m' (?f ` ({..<n} \<times> set js))) =
      Max (insert m (?row \<union> ?f ` ({..<n} \<times> set js)))"
    by (intro Max_insert_Max) simp_all
  also have "?row \<union> ?f ` ({..<n} \<times> set js) = ?f ` ({..<n} \<times> set (j # js))"
    by (auto simp: image_iff atLeast0LessThan)
  finally show ?case .
qed

lemma DetectMotion_Some:
  assumes "\<forall>j < unat by. \<forall>x < unat bx. x + (unat bx + 1) * j < length imv"
  shows "DetectMotion imv bx by =
     Some (Max (insert 0 ((\<lambda>(x, j). motion_magnitude (imv ! (x + (unat bx + 1) * j))) `
                 ({..<unat bx} \<times> {..<unat by}))))"
  unfolding DetectMotion_def
  using DetectMotion_rows[of "[0..<unat by]" "unat bx" imv 0] assms
  by (simp add: atLeast0LessThan)

lemma DetectMotion_row_None [simp]: "fold (DetectMotion_cell imv n j) xs None = None"
  by (induction xs) (simp_all add: DetectMotion_cell_def)

lemma DetectMotion_row_outside:
  assumes "x \<in> set xs" and "length imv \<le> x + (n + 1) * j"
  shows "fold (DetectMotion_cell imv n j) xs acc = None"
  using assms
proof (induction xs arbitrary: acc)
  case Nil
  then show ?case by simp
next
  case (Cons y ys)
  show ?case
  proof (cases "y = x")
    case True
    then have "DetectMotion_cell imv n j y acc = None"
      using Cons.prems(2) by (simp add: DetectMotion_cell_def split: option.splits)
    then show ?thesis by simp
  next
    case False
    then show ?thesis using Cons by simp
  qed
qed

lemma DetectMotion_rows_None [simp]:
  "fold (\<lambda>j acc. fold (DetectMotion_cell imv n j) xs acc) js None = None"
  by (induction js) simp_all

lemma DetectMotion_rows_outside:
  assumes "j \<in> set js" and "x \<in> set xs" and "length imv \<le> x + (n + 1) * j"
  shows "fold (\<lambda>j acc. fold (DetectMotion_cell imv n j) xs acc) js acc = None"
  using assms
proof (induction js arbitrary: acc)
  case Nil
  then show ?case by simp
next
  case (Cons i js)
  show ?case
  proof (cases "i = j")
    case True
    then show ?thesis using DetectMotion_row_outside[OF Cons.prems(2,3)] by simp
  next
    case False
    then show ?thesis using Cons by simp
  qed
qed

lemma DetectMotion_None:
  assumes "j < unat by" and "x < unat bx" and "length imv \<le> x + (unat bx + 1) * j"
  shows "DetectMotion imv bx by = None"
  unfolding DetectMotion_def
  using assms by (intro DetectMotion_rows_outside[of j _ x]) simp_all

lemma mv_index_bound:
  fixes x n j m :: nat
  assumes "x < n" and "j < m"
  shows "x + (n + 1) * j < (n + 1) * m"
proof -
  have "j + 1 \<le> m" using assms(2) by simp
  then have "(n + 1) * (j + 1) \<le> (n + 1) * m" by (rule mult_le_mono2)
  then show ?thesis using assms(1) by simp
qed

lemma mv_index_bound_spec:
  fixes x n j m :: nat
  assumes "x < n" and "j < m" and "m \<le> n + 1"
  shows "x + (n + 1) * j < n * (m + 1)"
proof -
  obtain n' where n: "n = Suc n'" using assms(1) by (cases n) auto
  obtain m' where m: "m = Suc m'" using assms(2) by (cases m) auto
  have "j \<le> m'" using assms(2) m by simp
  then have "(n' + 2) * j \<le> (n' + 2) * m'" by (rule mult_le_mono2)
  then have "x + (n + 1) * j \<le> n' + (n' + 2) * m'" using assms(1) n by simp
  also have "\<dots> < n * (m + 1)" using assms(3) n m by (simp add: algebra_simps)
  finally show ?thesis .
qed

text \<open>
  Claim C8, as the code has it. For the macroblock counts that \<^verbatim>\<open>main\<close> computes
  from the width and the height, every cell index \<open>x + (mbx + 1) * j\<close> that
  \<^verbatim>\<open>DetectMotion\<close> reads lies below \<open>(mbx + 1) * mby\<close>, so the scan stays inside
  every array of at least that many cells. It stays inside an array of
  \<open>mbx * (mby + 1)\<close> cells when \<open>mby \<le> mbx + 1\<close>.
\<close>

theorem DetectMotion_reads_stay_inside:
  assumes "bx = macroblocks width" and "by = macroblocks height"
  shows "(x < unat bx \<and> j < unat by \<longrightarrow> x + (unat bx + 1) * j < (unat bx + 1) * unat by) \<and>
     ((unat bx + 1) * unat by \<le> length imv \<longrightarrow> DetectMotion imv bx by \<noteq> None) \<and>
     (unat by \<le> unat bx + 1 \<longrightarrow>
        (x < unat bx \<and> j < unat by \<longrightarrow> x + (unat bx + 1) * j < unat bx * (unat by + 1)) \<and>
        (unat bx * (unat by + 1) \<le> length imv \<longrightarrow> DetectMotion imv bx by \<noteq> None))"
proof (intro conjI impI)
  assume "x < unat bx \<and> j < unat by"
  then show "x + (unat bx + 1) * j < (unat bx + 1) * unat by"
    using mv_index_bound by blast
next
  assume a: "(unat bx + 1) * unat by \<le> length imv"
  have "\<forall>j < unat by. \<forall>x < unat bx. x + (unat bx + 1) * j < length imv"
    using mv_index_bound[of _ "unat bx" _ "unat by"] a by (meson less_le_trans)
  from DetectMotion_Some[OF this] show "DetectMotion imv bx by \<noteq> None" by simp
next
  assume "unat by \<le> unat bx + 1" "x < unat bx \<and> j < unat by"
  then show "x + (unat bx + 1) * j < unat bx * (unat by + 1)"
    using mv_index_bound_spec by blast
next
  assume h: "unat by \<le> unat bx + 1" and a: "unat bx * (unat by + 1) \<le> length imv"
  have "\<forall>j < unat by. \<forall>x < unat bx. x + (unat bx + 1) * j < length imv"
    using mv_index_bound_spec[of _ "unat bx" _ "unat by", OF _ _ h] a by (meson less_le_trans)
  from DetectMotion_Some[OF this] show "DetectMotion imv bx by \<noteq> None" by simp
qed

theorem DetectMotion_reads_stay_inside_witness:
  "unat (macroblocks 1920) = 120 \<and> unat (macroblocks 1080) = 68 \<and>
   DetectMotion (replicate 8280 \<lparr>x_vector = 0, y_vector = 0, sad = 0\<rparr>)
     (macroblocks 1920) (macroblocks 1080) \<noteq> None"
proof -
  have m: "unat (macroblocks 1920) = 120" "unat (macroblocks 1080) = 68"
    by (simp_all add: macroblocks_def c_div_def c_rem_def)
  have "unat (macroblocks 1080) \<le> unat (macroblocks 1920) + 1" using m by simp
  moreover have "unat (macroblocks 1920) * (unat (macroblocks 1080) + 1)
      \<le> length (replicate 8280 \<lparr>x_vector = 0 :: 8 word, y_vector = 0 :: 8 word, sad = 0 :: 16 word\<rparr>)"
    using m by simp
  ultimately show ?thesis
    using DetectMotion_reads_stay_inside [OF refl refl, of 0 1920 0 1080
        "replicate 8280 \<lparr>x_vector = 0, y_vector = 0, sad = 0\<rparr>"] m
    by blast
qed

text \<open>
  An image of 480 by 640 pixels has 30 by 40 macroblocks; on an array of
  \<open>30 * (40 + 1)\<close> cells the scan reads outside the array.
\<close>

theorem DetectMotion_reads_past_spec_array:
  "unat (macroblocks 480) = 30 \<and> unat (macroblocks 640) = 40 \<and>
   DetectMotion (replicate (30 * (40 + 1)) \<lparr>x_vector = 0, y_vector = 0, sad = 0\<rparr>)
     (macroblocks 480) (macroblocks 640) = None"
proof -
  have m: "unat (macroblocks 480) = 30" "unat (macroblocks 640) = 40"
    by (simp_all add: macroblocks_def c_div_def c_rem_def)
  have "DetectMotion (replicate (30 * (40 + 1)) \<lparr>x_vector = 0, y_vector = 0, sad = 0\<rparr>)
     (macroblocks 480) (macroblocks 640) = None"
    by (rule DetectMotion_None[of 39 _ 29]) (simp_all add: m)
  with m show ?thesis by simp
qed

lemma unat_Max_image:
  fixes f :: "'a \<Rightarrow> byte"
  assumes "finite A"
  shows "unat (Max (insert 0 (f ` A))) = Max (insert 0 ((\<lambda>a. unat (f a)) ` A))"
proof -
  have "mono (unat :: byte \<Rightarrow> nat)" by (simp add: mono_def word_le_nat_alt)
  then have "unat (Max (insert 0 (f ` A))) = Max (unat ` insert 0 (f ` A))"
    using assms by (intro mono_Max_commute) simp_all
  then show ?thesis by (simp add: image_image)
qed

lemma SendToAndroid_tag_Suc:
  "sock_script s = [] \<Longrightarrow> SendToAndroid s [x] (Suc 0) = Inr (s\<lparr>wire := wire s @ [x]\<rparr>)"
  using SendToAndroid_tag[of s x] by simp

text \<open>
  Claim C7. In android_motion mode, on a socket that takes every send in full, let a
  buffer carry data and the CODECSIDEINFO flag and not be taken as a configuration
  buffer, and let its array of vectors hold the \<open>(mbx + 1) * mby\<close> cells of the
  scan. Then the callback sends the tag MotionInFrame and one byte \<open>mot\<close>, followed
  by the tag MotionAlarm exactly when \<^verbatim>\<open>gMotionAlarm\<close> is not zero and \<open>mot\<close>
  exceeds it, and nothing else. \<open>mot\<close> is the largest, over the scanned cells, of the
  integer part of \<open>sqrt (vx\<^sup>2 + vy\<^sup>2)\<close>, or 0 when no cell is scanned; that value
  never exceeds 181, so it fits the byte as it is.
\<close>

theorem motion_buffer_reduced_to_maximum:
  assumes "sock_script s = []" and "buf_length b \<noteq> 0"
    and "flags b AND FLAG_CODECSIDEINFO K \<noteq> 0"
    and "b1_config_sent s \<ge> 2 \<or> flags b AND FLAG_CONFIG K = 0"
    and "imv = imv_of_bytes (data b)"
    and "(unat (mbx s) + 1) * unat (mby s) \<le> length imv"
  shows "\<exists>mot. encoder_buffer_callback_android_motion K s b =
       Inr (s\<lparr>wire := wire s @ [dataType_byte MotionInFrame, mot] @
              (if gMotionAlarm s \<noteq> 0 \<and> uint mot > gMotionAlarm s
               then [dataType_byte MotionAlarm] else [])\<rparr>) \<and>
     unat mot = Max (insert 0 ((\<lambda>(x, j).
         nat \<lfloor>sqrt (real_of_int ((sint (- x_vector (imv ! (x + (unat (mbx s) + 1) * j))))\<^sup>2 +
                                  (sint (y_vector (imv ! (x + (unat (mbx s) + 1) * j))))\<^sup>2))\<rfloor>) `
       ({..<unat (mbx s)} \<times> {..<unat (mby s)})))"
proof -
  let ?f = "\<lambda>(x, j). motion_magnitude (imv ! (x + (unat (mbx s) + 1) * j))"
  let ?A = "{..<unat (mbx s)} \<times> {..<unat (mby s)}"
  let ?mot = "Max (insert 0 (?f ` ?A))"
  have inb: "\<forall>j < unat (mby s). \<forall>x < unat (mbx s). x + (unat (mbx s) + 1) * j < length imv"
    using mv_index_bound[of _ "unat (mbx s)" _ "unat (mby s)"] assms(6)
    by (meson less_le_trans)
  have dm: "DetectMotion (imv_of_bytes (data b)) (mbx s) (mby s) = Some ?mot"
    using DetectMotion_Some[OF inb] assms(5) by simp
  have cb: "encoder_buffer_callback_android_motion K s b =
       Inr (s\<lparr>wire := wire s @ [dataType_byte MotionInFrame, ?mot] @
              (if gMotionAlarm s \<noteq> 0 \<and> uint ?mot > gMotionAlarm s
               then [dataType_byte MotionAlarm] else [])\<rparr>)"
    using assms(1,2,3,4) dm
    by (auto simp add: encoder_buffer_callback_android_motion_def SendToAndroid_tag
        SendToAndroid_tag_Suc simp del: dataType_byte.simps)
  have "unat ?mot = Max (insert 0 ((\<lambda>a. unat (?f a)) ` ?A))"
    by (intro unat_Max_image) simp
  also have "(\<lambda>a. unat (?f a)) = (\<lambda>(x, j).
         nat \<lfloor>sqrt (real_of_int ((sint (- x_vector (imv ! (x + (unat (mbx s) + 1) * j))))\<^sup>2 +
                                  (sint (y_vector (imv ! (x + (unat (mbx s) + 1) * j))))\<^sup>2))\<rfloor>)"
    by (auto simp: fun_eq_iff motion_magnitude_val power2_eq_square sint_neg_square)
  finally show ?thesis using cb by blast
qed


theorem motion_buffer_reduced_to_maximum_witness:
  "encoder_buffer_callback_android_motion mmal_header_bits
     ((initial_sender 16 16 [])\<lparr>gMotionAlarm := 4\<rparr>)
     \<lparr>flags = 128, data = [3, 4, 0, 0, 0, 0, 0, 0]\<rparr>
   = Inr ((initial_sender 16 16 [])\<lparr>gMotionAlarm := 4, wire := [2, 5, 3]\<rparr>)"
proof -
  let ?s = "(initial_sender 16 16 [])\<lparr>gMotionAlarm := 4\<rparr>"
  let ?b = "\<lparr>flags = 128, data = [3, 4, 0, 0, 0, 0, 0, 0]\<rparr> :: mmal_buffer"
  have m: "mbx ?s = 1" "mby ?s = 1"
    by (simp_all add: initial_sender_def macroblocks_def c_div_def c_rem_def)
  have cell: "imv_of_bytes (data ?b) ! 0 = \<lparr>x_vector = 3, y_vector = 4, sad = 0\<rparr>"
    by simp
  have "\<exists>mot. encoder_buffer_callback_android_motion mmal_header_bits ?s ?b =
       Inr (?s\<lparr>wire := wire ?s @ [dataType_byte MotionInFrame, mot] @
              (if gMotionAlarm ?s \<noteq> 0 \<and> uint mot > gMotionAlarm ?s
               then [dataType_byte MotionAlarm] else [])\<rparr>) \<and>
     unat mot = Max (insert 0 ((\<lambda>(x, j).
         nat \<lfloor>sqrt (real_of_int
           ((sint (- x_vector (imv_of_bytes (data ?b) ! (x + (unat (mbx ?s) + 1) * j))))\<^sup>2 +
            (sint (y_vector (imv_of_bytes (data ?b) ! (x + (unat (mbx ?s) + 1) * j))))\<^sup>2))\<rfloor>) `
       ({..<unat (mbx ?s)} \<times> {..<unat (mby ?s)})))"
    by (rule motion_buffer_reduced_to_maximum)
      (simp_all add: buf_length_def mmal_header_bits_def initial_sender_def macroblocks_def
        c_div_def c_rem_def)
  then obtain mot where cb: "encoder_buffer_callback_android_motion mmal_header_bits ?s ?b =
       Inr (?s\<lparr>wire := wire ?s @ [dataType_byte MotionInFrame, mot] @
              (if gMotionAlarm ?s \<noteq> 0 \<and> uint mot > gMotionAlarm ?s
               then [dataType_byte MotionAlarm] else [])\<rparr>)"
    and um: "unat mot = Max (insert 0 ((\<lambda>(x, j).
         nat \<lfloor>sqrt (real_of_int
           ((sint (- x_vector (imv_of_bytes (data ?b) ! (x + (unat (mbx ?s) + 1) * j))))\<^sup>2 +
            (sint (y_vector (imv_of_bytes (data ?b) ! (x + (unat (mbx ?s) + 1) * j))))\<^sup>2))\<rfloor>) `
       ({..<unat (mbx ?s)} \<times> {..<unat (mby ?s)})))"
    by blast
  have "sqrt 25 = 5" using real_sqrt_abs[of 5] by simp
  then have "unat mot = 5" using um by (simp add: m lessThan_Suc)
  then have "unat mot = unat (5 :: byte)" by simp
  then have "mot = 5" by (simp only: word_unat_eq_iff)
  then show ?thesis using cb by (simp add: initial_sender_def)
qed

section \<open>The command loop\<close>

lemma isdigit_char_of: "d < 10 \<Longrightarrow> isdigit (char_of (48 + d))" for d :: nat
  by (simp add: isdigit_def)

lemma digit_value: "d < 10 \<Longrightarrow> (of_char (char_of (48 + d)) :: nat) - 48 = d" for d :: nat
  by simp

lemma dec_nat_digits: "c \<in> set (dec_nat n) \<Longrightarrow> isdigit c"
proof (induction n rule: dec_nat.induct)
  case (1 n)
  then show ?case
    by (subst (asm) (2) dec_nat.simps) (auto simp: isdigit_char_of split: if_splits)
qed

lemma dec_nat_not_Nil: "dec_nat n \<noteq> []"
  by (subst dec_nat.simps) simp

lemma scan_digits_dec_nat:
  "scan_digits (dec_nat n @ rest) acc = scan_digits rest (acc * 10 ^ length (dec_nat n) + n)"
proof (induction n arbitrary: rest acc rule: dec_nat.induct)
  case (1 n)
  show ?case
  proof (cases "n < 10")
    case True
    then have d: "dec_nat n = [char_of (48 + n)]" by (subst dec_nat.simps) simp
    show ?thesis using True unfolding d by (simp add: isdigit_char_of mult.commute)
  next
    case False
    let ?c = "char_of (48 + n mod 10) :: char"
    have d: "dec_nat n = dec_nat (n div 10) @ [?c]" using False by (subst dec_nat.simps) simp
    have "scan_digits (dec_nat n @ rest) acc = scan_digits (dec_nat (n div 10) @ (?c # rest)) acc"
      unfolding d by simp
    also have "\<dots> = scan_digits (?c # rest) (acc * 10 ^ length (dec_nat (n div 10)) + n div 10)"
      using False by (intro "1.IH") simp
    also have "\<dots> = scan_digits rest
        (10 * (acc * 10 ^ length (dec_nat (n div 10)) + n div 10) + n mod 10)"
      by (simp add: isdigit_char_of)
    also have "10 * (acc * 10 ^ length (dec_nat (n div 10)) + n div 10) + n mod 10 =
        acc * 10 ^ length (dec_nat n) + n"
      unfolding d by (simp add: algebra_simps)
    finally show ?thesis .
  qed
qed

lemma isdigit_not_special:
  assumes "isdigit c"
  shows "\<not> isspace c" "c \<noteq> CHR ''-''" "c \<noteq> CHR ''+''" "c \<noteq> CHR 0x0A" "c \<noteq> CHR 0x00"
  using assms by (auto simp: isdigit_def isspace_def)

lemma hd_dec_nat_digit: "isdigit (hd (dec_nat n))"
  using dec_nat_digits[of "hd (dec_nat n)" n] dec_nat_not_Nil[of n] by simp

lemma scan_d_dec_nat:
  assumes "\<not> isdigit c"
  shows "scan_d (dec_nat n @ c # rest) = Some (max INT_MIN (min INT_MAX (int n)))"
proof -
  obtain d ds where ds: "dec_nat n = d # ds" using dec_nat_not_Nil[of n] by (cases "dec_nat n") auto
  have dd: "isdigit d" using hd_dec_nat_digit[of n] ds by simp
  have v: "scan_digits (dec_nat n @ c # rest) 0 = n"
    using assms by (simp add: scan_digits_dec_nat)
  show ?thesis
    using isdigit_not_special[OF dd] dd v unfolding ds
    by (simp add: scan_d_def Let_def)
qed

lemma scan_d_decimal:
  assumes "\<not> isdigit c" and "INT_MIN \<le> i" and "i \<le> INT_MAX"
  shows "scan_d (decimal i @ c # rest) = Some i"
proof (cases "i < 0")
  case False
  then show ?thesis using scan_d_dec_nat[OF assms(1), of "nat i" rest] assms(2,3)
    by (simp add: decimal_def)
next
  case True
  let ?n = "nat (- i)"
  obtain d ds where ds: "dec_nat ?n = d # ds"
    using dec_nat_not_Nil[of ?n] by (cases "dec_nat ?n") auto
  have dd: "isdigit d" using hd_dec_nat_digit[of ?n] ds by simp
  have v: "scan_digits (dec_nat ?n @ c # rest) 0 = ?n"
    using assms(1) by (simp add: scan_digits_dec_nat)
  have "\<not> isspace (CHR ''-'')" by (simp add: isspace_def)
  then show ?thesis
    using True dd v assms(2,3) unfolding decimal_def ds
    by (simp add: scan_d_def Let_def ds)
qed

lemma c_str_id: "CHR 0x00 \<notin> set l \<Longrightarrow> c_str l = l"
  by (auto simp: c_str_def takeWhile_eq_all_conv)

lemma decimal_chars: "c \<in> set (decimal i) \<Longrightarrow> isdigit c \<or> c = CHR ''-''"
  by (auto simp: decimal_def dec_nat_digits split: if_splits)

lemma getline_append:
  "CHR 0x0A \<notin> set l \<Longrightarrow> getline (l @ CHR 0x0A # rest) = Some (l @ [CHR 0x0A], rest)"
  by (induction l) auto

lemma command_line_iso:
  assumes "INT_MIN \<le> i" and "i \<le> INT_MAX"
  shows "command_line s (''iso='' @ decimal i @ [CHR 0x0A]) = ([raspicamcontrol_set_ISO i], s)"
proof -
  let ?l = "''iso='' @ decimal i @ [CHR 0x0A]"
  have "CHR 0x00 \<notin> set ?l"
    using decimal_chars[of "CHR 0x00" i] by (auto simp: isdigit_def)
  then have c: "c_str ?l = ?l" by (rule c_str_id)
  have nd: "\<not> isdigit (CHR 0x0A)" by (simp add: isdigit_def)
  have d: "scan_d (drop 4 ?l) = Some i"
    using scan_d_decimal[OF nd assms, of "[]"] by simp
  show ?thesis
    unfolding command_line_def c Let_def using d
    by (simp add: strncmp_eq_def c_str_def)
qed

lemma command_line_unknown:
  assumes "\<forall>key \<in> set known_keys. \<not> strncmp_eq key line (length key)"
  shows "command_line s line = ([], s)"
proof -
  have "strncmp_eq key (c_str line) n = strncmp_eq key line n" for key n
    by (simp add: strncmp_eq_def c_str_def)
  then show ?thesis using assms
    by (simp add: command_line_def Let_def known_keys_def eval_nat_numeral)
qed

text \<open>
  Claim C9. For every integer \<open>i\<close> that fits an \<^verbatim>\<open>int\<close>, when the next line of
  the control channel is \<^verbatim>\<open>iso=\<close> followed by the decimal numeral of \<open>i\<close> and a
  newline, \<^verbatim>\<open>receive_commands\<close> makes exactly one call for it,
  \<^verbatim>\<open>raspicamcontrol_set_ISO\<close> with \<open>i\<close>, leaves the process state as it was and
  goes on with the rest of the input. A line on which none of the known keys matches
  makes no call and changes nothing, and the loop goes on with the rest as well.
\<close>

theorem iso_line_sets_iso_once:
  assumes "INT_MIN \<le> i" and "i \<le> INT_MAX"
  shows "receive_commands s (''iso='' @ decimal i @ CHR 0x0A # rest) =
       (raspicamcontrol_set_ISO i # fst (receive_commands s rest),
        snd (receive_commands s rest)) \<and>
     (getline input = Some (line, rest) \<and>
      (\<forall>key \<in> set known_keys. \<not> strncmp_eq key line (length key)) \<longrightarrow>
        command_line s line = ([], s) \<and>
        receive_commands s input = receive_commands s rest)"
proof (intro conjI impI)
  let ?l = "''iso='' @ decimal i"
  have "CHR 0x0A \<notin> set ?l"
    using decimal_chars[of "CHR 0x0A" i] by (auto simp: isdigit_def)
  from getline_append[OF this, of rest]
  have g: "getline (''iso='' @ decimal i @ CHR 0x0A # rest) =
      Some (''iso='' @ decimal i @ [CHR 0x0A], rest)" by simp
  show "receive_commands s (''iso='' @ decimal i @ CHR 0x0A # rest) =
       (raspicamcontrol_set_ISO i # fst (receive_commands s rest),
        snd (receive_commands s rest))"
    by (subst receive_commands.simps, subst g)
      (simp only: command_line_iso[OF assms] option.case prod.case, simp split: prod.split)
next
  assume a: "getline input = Some (line, rest) \<and>
      (\<forall>key \<in> set known_keys. \<not> strncmp_eq key line (length key))"
  then show u: "command_line s line = ([], s)" using command_line_unknown by blast
  show "receive_commands s input = receive_commands s rest"
    using a u by (subst receive_commands.simps) (simp split: prod.split)
qed

theorem iso_line_sets_iso_once_witness:
  "receive_commands (initial_sender 1920 1080 []) (''iso=800'' @ [CHR 0x0A])
     = ([raspicamcontrol_set_ISO 800], initial_sender 1920 1080 [])"
proof -
  have d: "decimal 800 = ''800''"
    by code_simp
  have e: "receive_commands (initial_sender 1920 1080 []) [] = ([], initial_sender 1920 1080 [])"
    by (subst receive_commands.simps) simp
  have "INT_MIN \<le> 800" "800 \<le> INT_MAX" by (simp_all add: INT_MIN_def INT_MAX_def)
  from iso_line_sets_iso_once [OF this, THEN conjunct1, of "initial_sender 1920 1080 []" "[]"]
  show ?thesis by (simp add: d e)
qed

end
